theory Spec2Isabelle
  imports Main "HOL-Library.Word"
begin

section \<open>Coverage instrumentation pass (V3Coverage.cpp): data model\<close>

text \<open>
  The pass is a visitor over the syntax tree. The embedding keeps the visitor's member
  variables in one record that every function takes and returns, the tree as a
  datatype, and the fatal internal error as the left summand of the result.
\<close>

subsection \<open>Source locations and options\<close>

text \<open>
  \<open>FileLine\<close>: the accessors the pass reads. \<open>warnOffUnusedSignal\<close> is the flag that
  \<open>modifyWarnOff(V3ErrorCode::UNUSEDSIGNAL, true)\<close> sets on the copies made for the
  variables the pass creates.
\<close>

record fileline =
  filenameno :: int
  filebasenameNoExt :: string
  lineno :: int
  firstLineno :: int
  lastLineno :: int
  coverageOn :: bool
  warnOffUnusedSignal :: bool

text \<open>\<open>v3Global.opt\<close>: the queries of the pass.\<close>

record opts =
  coverageLine :: bool
  coverageToggle :: bool
  coverageUser :: bool
  coverageUnderscore :: bool
  coverageMaxWidth :: int
  traceCoverage :: bool

subsection \<open>Decimal rendering\<close>

text \<open>
  Modelled from the spec: \<open>cvtToStr\<close> is declared outside V3Coverage.cpp; it streams its
  argument into a string, which for the integers of this pass is their decimal form
  (the spec's example renders the lines 3, 4, 5 as \<open>3-5\<close>).
\<close>

definition digit_char :: "nat \<Rightarrow> char" where
  "digit_char d = ''0123456789'' ! d"

function cvtNat :: "nat \<Rightarrow> string" where
  "cvtNat n = (if n < 10 then [digit_char n] else cvtNat (n div 10) @ [digit_char (n mod 10)])"
  by pat_completeness auto
termination
  by (relation "measure id") auto

declare cvtNat.simps [simp del]

definition cvtToStr :: "int \<Rightarrow> string" where
  "cvtToStr i = (if i < 0 then CHR ''-'' # cvtNat (nat (- i)) else cvtNat (nat i))"

subsection \<open>Value types\<close>

text \<open>
  The data-type tree after \<open>skipRefp\<close>. Every node carries its \<open>width()\<close>. The members
  of a struct or union are the linked list that is walked with \<open>nextp()\<close>. A kind the
  decomposition has no branch for is \<open>OtherDType\<close>, with its \<open>prettyTypeName()\<close>.
\<close>

datatype dtype =
    BasicDType int bool int int
  | UnpackArrayDType int int int dtype
  | PackArrayDType int int int dtype
  | StructDType int bool members
  | UnionDType int members
  | OtherDType int string
and members =
    NoMember
  | MemberDType string int dtype members

fun width :: "dtype \<Rightarrow> int" where
  "width (BasicDType w r l h) = w"
| "width (UnpackArrayDType w l h d) = w"
| "width (PackArrayDType w l h d) = w"
| "width (StructDType w p ms) = w"
| "width (UnionDType w ms) = w"
| "width (OtherDType w nm) = w"

datatype vartype = VAR | MODULETEMP

text \<open>
  \<open>AstVar\<close>: \<open>v_isToggleCoverable\<close>, \<open>v_shortName\<close>, \<open>v_prettyName\<close> and
  \<open>v_arrayUnpackedElements\<close> are the results of accessors defined outside this file.
\<close>

record var =
  v_name :: string
  v_shortName :: string
  v_prettyName :: string
  v_varType :: vartype
  v_dtype :: dtype
  v_width :: int
  v_arrayUnpackedElements :: "32 word"
  v_isToggleCoverable :: bool
  v_trace :: bool

datatype vaccess = READ | WRITE

text \<open>The expressions the pass builds; a \<open>VarRef\<close> holds the variable it points to.\<close>

datatype expr =
    VarRef var vaccess
  | Sel expr int int
  | ArraySel expr int
  | StructSel expr string dtype
  | Add expr expr
  | Const int int

record coverdecl =
  cd_page :: string
  cd_comment :: string
  cd_linescov :: string
  cd_offset :: int
  cd_hier :: string

datatype pragtype = COVERAGE_BLOCK_OFF | OTHER_PRAGMA

text \<open>
  A syntax-tree node is its kind, its source location and its four operand slots, each a
  list linked by \<open>nextp()\<close>. The slots the pass names are: for a module and a procedure
  \<open>stmtsp\<close> (the second slot); for a task or loop \<open>stmtsp\<close> (the third); for a
  conditional \<open>condp\<close>, \<open>thensp\<close>, \<open>elsesp\<close> (the first three); for a case arm
  \<open>condsp\<close>, \<open>stmtsp\<close> (the first two); for a cover statement \<open>coverincsp\<close> (the
  third). \<open>KIf\<close> carries \<open>user1()\<close>, \<open>KFTask\<close> carries \<open>dpiImport()\<close>, \<open>KModule\<close> its
  \<open>prettyName()\<close>, whether it is at the top level and whether it is a class. The
  expressions of the nodes the pass creates are part of the kind.
\<close>

datatype nkind =
    KModule string bool bool
  | KProcedure
  | KWhile
  | KFTask bool
  | KVar var
  | KIf bool
  | KCaseItem
  | KCover
  | KStop
  | KPragma pragtype
  | KBegin string
  | KCoverDecl coverdecl
  | KCoverInc coverdecl
  | KCoverToggle expr expr
  | KAssign expr expr
  | KOther

datatype node = Node nkind fileline "node list" "node list" "node list" "node list"

fun kind :: "node \<Rightarrow> nkind" where
  "kind (Node k fl a b c d) = k"

fun nodeFileline :: "node \<Rightarrow> fileline" where
  "nodeFileline (Node k fl a b c d) = fl"

datatype errnode = ErrDType dtype | ErrNode node

datatype error = FatalSrc errnode string | NullModule

subsection \<open>Visitor state\<close>

record CheckState =
  m_on :: bool
  m_inModOff :: bool
  m_handle :: int
  m_nodep :: "fileline option"

text \<open>
  \<open>m_nodep\<close> is read only for the file of the node it points to, so the state keeps
  that node's source location. \<open>m_modp\<close> is the current module (its \<open>prettyName()\<close> and
  whether it is a class); \<open>m_modStmts\<close> holds what \<open>m_modp->addStmtsp\<close> has appended to
  it so far, which the module receives when its visit ends. In the source the appended
  nodes are at the end of the list the module's visit is iterating, so the visitor
  reaches them too: they are coverage declarations, toggle nodes and variables of type
  \<open>MODULETEMP\<close>. For the first two it only records a line under the module's own
  handle, whose lines are never rendered; for the variables the same holds as long as
  \<open>isToggleCoverable()\<close>, which is declared outside V3Coverage.cpp, rejects that
  variable type. The embedding leaves that visit out.
\<close>

record modref =
  mod_prettyName :: string
  mod_isClass :: bool

record vstate =
  m_nextHandle :: int
  m_state :: CheckState
  m_modp :: "modref option"
  m_modStmts :: "node list"
  m_inToggleOff :: bool
  m_varnames :: "string \<Rightarrow> 32 word"
  m_beginHier :: string
  m_handleLines :: "int \<Rightarrow> int set"

definition lineCoverageOn :: "opts \<Rightarrow> CheckState \<Rightarrow> fileline \<Rightarrow> bool" where
  "lineCoverageOn opt s fl \<longleftrightarrow> m_on s \<and> \<not> m_inModOff s \<and> coverageOn fl \<and> coverageLine opt"

definition initState :: vstate where
  "initState = \<lparr> m_nextHandle = 0,
       m_state = \<lparr> m_on = False, m_inModOff = False, m_handle = 0, m_nodep = None \<rparr>,
       m_modp = None, m_modStmts = [], m_inToggleOff = False,
       m_varnames = (\<lambda>_. 0), m_beginHier = [], m_handleLines = (\<lambda>_. {}) \<rparr>"

subsection \<open>Line tracking\<close>

definition createHandle :: "fileline \<Rightarrow> vstate \<Rightarrow> vstate" where
  "createHandle fl st =
     st\<lparr> m_nextHandle := m_nextHandle st + 1,
         m_state := (m_state st)\<lparr> m_on := True, m_handle := m_nextHandle st + 1,
                                  m_nodep := Some fl \<rparr> \<rparr>"

definition lineTrack :: "opts \<Rightarrow> fileline \<Rightarrow> vstate \<Rightarrow> vstate" where
  "lineTrack opt fl st =
     (if lineCoverageOn opt (m_state st) fl
         \<and> map_option filenameno (m_nodep (m_state st)) = Some (filenameno fl)
      then st\<lparr> m_handleLines := (m_handleLines st)
                 (m_handle (m_state st) :=
                    fold insert [firstLineno fl .. lastLineno fl]
                      (m_handleLines st (m_handle (m_state st)))) \<rparr>
      else st)"

definition linesFirstLast :: "int \<Rightarrow> int \<Rightarrow> string" where
  "linesFirstLast firstl lastl =
     (if firstl \<noteq> 0 \<and> firstl = lastl then cvtToStr firstl
      else if firstl \<noteq> 0 \<and> lastl \<noteq> 0 then cvtToStr firstl @ ''-'' @ cvtToStr lastl
      else [])"

text \<open>
  The loop of \<open>linesCov\<close> over the lines of a \<open>std::set<int>\<close>, in ascending order; the
  loop state is \<open>(out, first, last)\<close>, and \<open>linesFlush\<close> is the two statements that
  append a finished range to \<open>out\<close>.
\<close>

definition linesFlush :: "string \<Rightarrow> int \<Rightarrow> int \<Rightarrow> string" where
  "linesFlush out firstl lastl =
     (if out \<noteq> [] then out @ '','' else out) @ linesFirstLast firstl lastl"

fun linesLoop :: "int list \<Rightarrow> string \<times> int \<times> int \<Rightarrow> string \<times> int \<times> int" where
  "linesLoop [] s = s"
| "linesLoop (linen # rest) (out, firstl, lastl) =
     (if firstl = 0 then linesLoop rest (out, linen, linen)
      else if linen = lastl + 1 then linesLoop rest (out, firstl, lastl + 1)
      else linesLoop rest (linesFlush out firstl lastl, linen, linen))"

definition linesRender :: "int set \<Rightarrow> string" where
  "linesRender lines =
     (case linesLoop (sorted_list_of_set lines) ([], 0, 0) of
        (out, firstl, lastl) \<Rightarrow> if firstl \<noteq> 0 then linesFlush out firstl lastl else out)"

definition linesCov :: "vstate \<Rightarrow> CheckState \<Rightarrow> string" where
  "linesCov st state = linesRender (m_handleLines st (m_handle state))"

subsection \<open>Coverage declarations and increments\<close>

definition addModStmt :: "node \<Rightarrow> vstate \<Rightarrow> vstate" where
  "addModStmt n st = st\<lparr> m_modStmts := m_modStmts st @ [n] \<rparr>"

definition uint32DType :: dtype where
  "uint32DType = BasicDType 32 True 0 31"

text \<open>
  \<open>newCoverInc\<close> returns the increment, followed by the update of its trace counter when
  one is made (\<open>addNext\<close> links it behind the increment). Calling it outside any module
  dereferences a null \<open>m_modp\<close>, which the model reports as \<open>NullModule\<close>.
\<close>

definition newCoverInc ::
  "opts \<Rightarrow> fileline \<Rightarrow> string \<Rightarrow> string \<Rightarrow> string \<Rightarrow> string \<Rightarrow> int \<Rightarrow> string \<Rightarrow> vstate
     \<Rightarrow> error + (node list \<times> vstate)" where
  "newCoverInc opt fl hier page_prefix comment linescov offset trace_var_name st =
     (case m_modp st of
        None \<Rightarrow> Inl NullModule
      | Some modp \<Rightarrow>
          let page = page_prefix @ ''/'' @ mod_prettyName modp;
              declp = \<lparr> cd_page = page, cd_comment = comment, cd_linescov = linescov,
                        cd_offset = offset, cd_hier = hier \<rparr>;
              st1 = addModStmt (Node (KCoverDecl declp) fl [] [] [] []) st;
              incp = Node (KCoverInc declp) fl [] [] [] []
          in if trace_var_name \<noteq> [] \<and> traceCoverage opt \<and> \<not> mod_isClass modp
             then let fl_nowarn = fl\<lparr> warnOffUnusedSignal := True \<rparr>;
                      varp = \<lparr> v_name = trace_var_name, v_shortName = trace_var_name,
                               v_prettyName = trace_var_name, v_varType = MODULETEMP,
                               v_dtype = uint32DType, v_width = 32,
                               v_arrayUnpackedElements = 1, v_isToggleCoverable = False,
                               v_trace = True \<rparr>;
                      st2 = addModStmt (Node (KVar varp) fl_nowarn [] [] [] []) st1;
                      assp = Node (KAssign (VarRef varp WRITE)
                                     (Add (VarRef varp READ) (Const 32 1))) fl [] [] [] []
                  in Inr ([incp, assp], st2)
             else Inr ([incp], st1))"

definition traceNameForLine :: "fileline \<Rightarrow> string \<Rightarrow> vstate \<Rightarrow> string \<times> vstate" where
  "traceNameForLine fl type st =
     (let name = ''vlCoverageLineTrace_'' @ filebasenameNoExt fl @ ''__''
                   @ cvtToStr (lineno fl) @ ''_'' @ type;
          suffix = m_varnames st name;
          st1 = st\<lparr> m_varnames := (m_varnames st)(name := suffix + 1) \<rparr>
      in (if suffix \<noteq> 0 then name @ ''_'' @ cvtNat (unat suffix) else name, st1))"

text \<open>
  The call that the line-coverage visitors share:
  \<open>newCoverInc(fl, "", page, type, linesCov(state, nodep), offset, traceNameForLine(nodep, type))\<close>.
\<close>

definition lineCoverInc ::
  "opts \<Rightarrow> fileline \<Rightarrow> string \<Rightarrow> string \<Rightarrow> CheckState \<Rightarrow> int \<Rightarrow> vstate
     \<Rightarrow> error + (node list \<times> vstate)" where
  "lineCoverInc opt fl page_prefix type state offset st =
     (let linescov = linesCov st state;
          (tname, st1) = traceNameForLine fl type st
      in newCoverInc opt fl [] page_prefix type linescov offset tname st1)"

subsection \<open>Toggle coverage\<close>

fun findSub :: "string \<Rightarrow> string \<Rightarrow> bool" where
  "findSub pat [] = (pat = [])"
| "findSub pat (c # cs) = (take (length pat) (c # cs) = pat \<or> findSub pat cs)"

definition varIgnoreToggle :: "opts \<Rightarrow> var \<Rightarrow> string option" where
  "varIgnoreToggle opt nodep =
     (if \<not> v_isToggleCoverable nodep then Some ''Not relevant signal type''
      else if \<not> coverageUnderscore opt
              \<and> (case v_prettyName nodep of [] \<Rightarrow> False | c # cs \<Rightarrow> c = CHR ''_'')
           then Some ''Leading underscore''
      else if \<not> coverageUnderscore opt \<and> findSub ''._'' (v_prettyName nodep)
           then Some ''Inlined leading underscore''
      else if (word_of_int (v_width nodep) * v_arrayUnpackedElements nodep :: 32 word)
                > word_of_int (coverageMaxWidth opt)
           then Some ''Wide bus/array > --coverage-max-width setting's bits''
      else None)"

record ToggleEnt =
  m_comment :: string
  m_varRefp :: expr
  m_chgRefp :: expr

definition toggleVarBottom ::
  "opts \<Rightarrow> ToggleEnt \<Rightarrow> fileline \<Rightarrow> var \<Rightarrow> vstate \<Rightarrow> error + vstate" where
  "toggleVarBottom opt aboveEnt varfl varp st =
     (case newCoverInc opt varfl [] ''v_toggle'' (v_name varp @ m_comment aboveEnt) [] 0 [] st of
        Inl e \<Rightarrow> Inl e
      | Inr (incp, st1) \<Rightarrow>
          Inr (addModStmt (Node (KCoverToggle (m_varRefp aboveEnt) (m_chgRefp aboveEnt))
                             varfl incp [] [] []) st1))"

text \<open>The loop over the bits of a ranged basic type; \<open>idxs\<close> are the \<open>index_docs\<close> left.\<close>

fun toggleBits ::
  "opts \<Rightarrow> int \<Rightarrow> int list \<Rightarrow> ToggleEnt \<Rightarrow> fileline \<Rightarrow> var \<Rightarrow> vstate \<Rightarrow> error + vstate" where
  "toggleBits opt lo [] aboveEnt varfl varp st = Inr st"
| "toggleBits opt lo (index_docs # idxs) aboveEnt varfl varp st =
     (let index_code = index_docs - lo;
          newent = \<lparr> m_comment = m_comment aboveEnt @ ''['' @ cvtToStr index_docs @ '']'',
                     m_varRefp = Sel (m_varRefp aboveEnt) index_code 1,
                     m_chgRefp = Sel (m_chgRefp aboveEnt) index_code 1 \<rparr>
      in case toggleVarBottom opt newent varfl varp st of
           Inl e \<Rightarrow> Inl e
         | Inr st1 \<Rightarrow> toggleBits opt lo idxs aboveEnt varfl varp st1)"

text \<open>
  \<open>toggleVarRecurse\<close>, with its four iterations as functions of their own: over the elements
  of an unpacked and of a packed array (\<open>idxs\<close> are the \<open>index_docs\<close> left) and over the
  members of a packed and of an unpacked struct.
\<close>

function toggleVarRecurse ::
    "opts \<Rightarrow> dtype \<Rightarrow> int \<Rightarrow> ToggleEnt \<Rightarrow> fileline \<Rightarrow> var \<Rightarrow> var \<Rightarrow> vstate \<Rightarrow> error + vstate"
  and toggleUnpackElems ::
    "opts \<Rightarrow> int \<Rightarrow> dtype \<Rightarrow> int list \<Rightarrow> int \<Rightarrow> ToggleEnt \<Rightarrow> fileline \<Rightarrow> var \<Rightarrow> var \<Rightarrow> vstate
       \<Rightarrow> error + vstate"
  and togglePackElems ::
    "opts \<Rightarrow> int \<Rightarrow> dtype \<Rightarrow> int list \<Rightarrow> int \<Rightarrow> ToggleEnt \<Rightarrow> fileline \<Rightarrow> var \<Rightarrow> var \<Rightarrow> vstate
       \<Rightarrow> error + vstate"
  and togglePackedMembers ::
    "opts \<Rightarrow> members \<Rightarrow> int \<Rightarrow> ToggleEnt \<Rightarrow> fileline \<Rightarrow> var \<Rightarrow> var \<Rightarrow> vstate \<Rightarrow> error + vstate"
  and toggleUnpackedMembers ::
    "opts \<Rightarrow> members \<Rightarrow> int \<Rightarrow> ToggleEnt \<Rightarrow> fileline \<Rightarrow> var \<Rightarrow> var \<Rightarrow> vstate \<Rightarrow> error + vstate"
where
  "toggleVarRecurse opt (BasicDType w ranged lo hi) depth aboveEnt varfl varp chgVarp st =
     (if ranged then toggleBits opt lo [lo .. hi] aboveEnt varfl varp st
      else toggleVarBottom opt aboveEnt varfl varp st)"
| "toggleVarRecurse opt (UnpackArrayDType w lo hi subDTypep) depth aboveEnt varfl varp chgVarp st =
     toggleUnpackElems opt lo subDTypep [lo .. hi] depth aboveEnt varfl varp chgVarp st"
| "toggleVarRecurse opt (PackArrayDType w lo hi subDTypep) depth aboveEnt varfl varp chgVarp st =
     togglePackElems opt lo subDTypep [lo .. hi] depth aboveEnt varfl varp chgVarp st"
| "toggleVarRecurse opt (StructDType w packed membersp) depth aboveEnt varfl varp chgVarp st =
     (if packed then togglePackedMembers opt membersp depth aboveEnt varfl varp chgVarp st
      else toggleUnpackedMembers opt membersp depth aboveEnt varfl varp chgVarp st)"
| "toggleVarRecurse opt (UnionDType w membersp) depth aboveEnt varfl varp chgVarp st =
     (case membersp of
        NoMember \<Rightarrow> Inr st
      | MemberDType name lsb subtypep nextp \<Rightarrow>
          let newent = \<lparr> m_comment = m_comment aboveEnt @ ''.'' @ name,
                         m_varRefp = m_varRefp aboveEnt, m_chgRefp = m_chgRefp aboveEnt \<rparr>
          in toggleVarRecurse opt subtypep (depth + 1) newent varfl varp chgVarp st)"
| "toggleVarRecurse opt (OtherDType w prettyTypeName) depth aboveEnt varfl varp chgVarp st =
     Inl (FatalSrc (ErrDType (OtherDType w prettyTypeName))
            (''Unexpected node data type in toggle coverage generation: '' @ prettyTypeName))"
| "toggleUnpackElems opt lo subDTypep [] depth aboveEnt varfl varp chgVarp st = Inr st"
| "toggleUnpackElems opt lo subDTypep (index_docs # idxs) depth aboveEnt varfl varp chgVarp st =
     (let index_code = index_docs - lo;
          newent = \<lparr> m_comment = m_comment aboveEnt @ ''['' @ cvtToStr index_docs @ '']'',
                     m_varRefp = ArraySel (m_varRefp aboveEnt) index_code,
                     m_chgRefp = ArraySel (m_chgRefp aboveEnt) index_code \<rparr>
      in case toggleVarRecurse opt subDTypep (depth + 1) newent varfl varp chgVarp st of
           Inl e \<Rightarrow> Inl e
         | Inr st1 \<Rightarrow> toggleUnpackElems opt lo subDTypep idxs depth aboveEnt varfl varp chgVarp st1)"
| "togglePackElems opt lo subDTypep [] depth aboveEnt varfl varp chgVarp st = Inr st"
| "togglePackElems opt lo subDTypep (index_docs # idxs) depth aboveEnt varfl varp chgVarp st =
     (let index_code = index_docs - lo;
          newent = \<lparr> m_comment = m_comment aboveEnt @ ''['' @ cvtToStr index_docs @ '']'',
                     m_varRefp = Sel (m_varRefp aboveEnt) (index_code * width subDTypep)
                                   (width subDTypep),
                     m_chgRefp = Sel (m_chgRefp aboveEnt) (index_code * width subDTypep)
                                   (width subDTypep) \<rparr>
      in case toggleVarRecurse opt subDTypep (depth + 1) newent varfl varp chgVarp st of
           Inl e \<Rightarrow> Inl e
         | Inr st1 \<Rightarrow> togglePackElems opt lo subDTypep idxs depth aboveEnt varfl varp chgVarp st1)"
| "togglePackedMembers opt NoMember depth aboveEnt varfl varp chgVarp st = Inr st"
| "togglePackedMembers opt (MemberDType name lsb subtypep nextp) depth aboveEnt varfl varp chgVarp st =
     (let index_code = lsb;
          newent = \<lparr> m_comment = m_comment aboveEnt @ ''.'' @ name,
                     m_varRefp = Sel (m_varRefp aboveEnt) index_code (width subtypep),
                     m_chgRefp = Sel (m_chgRefp aboveEnt) index_code (width subtypep) \<rparr>
      in case toggleVarRecurse opt subtypep (depth + 1) newent varfl varp chgVarp st of
           Inl e \<Rightarrow> Inl e
         | Inr st1 \<Rightarrow> togglePackedMembers opt nextp depth aboveEnt varfl varp chgVarp st1)"
| "toggleUnpackedMembers opt NoMember depth aboveEnt varfl varp chgVarp st = Inr st"
| "toggleUnpackedMembers opt (MemberDType name lsb subtypep nextp) depth aboveEnt varfl varp chgVarp st =
     (let varRefp = StructSel (m_varRefp aboveEnt) name subtypep;
          chgRefp = StructSel (m_varRefp aboveEnt) name subtypep;
          newent = \<lparr> m_comment = m_comment aboveEnt @ ''.'' @ name,
                     m_varRefp = varRefp, m_chgRefp = chgRefp \<rparr>
      in case toggleVarRecurse opt subtypep (depth + 1) newent varfl varp chgVarp st of
           Inl e \<Rightarrow> Inl e
         | Inr st1 \<Rightarrow> toggleUnpackedMembers opt nextp depth aboveEnt varfl varp chgVarp st1)"
  by pat_completeness auto
termination
  by (relation "inv_image (less_than <*lex*> less_than) (\<lambda>x. case x of
        Inl (Inl (opt, d, r)) \<Rightarrow> (size d, 0)
      | Inl (Inr (opt, lo, d, idxs, r)) \<Rightarrow> (size d, 1 + length idxs)
      | Inr (Inl (opt, lo, d, idxs, r)) \<Rightarrow> (size d, 1 + length idxs)
      | Inr (Inr (Inl (opt, ms, r))) \<Rightarrow> (size ms, 0)
      | Inr (Inr (Inr (opt, ms, r))) \<Rightarrow> (size ms, 0))") auto

subsection \<open>Statement visitors\<close>

text \<open>The parts of the visitors that run after the children have been visited.\<close>

fun procAddStmtsp :: "node \<Rightarrow> node list \<Rightarrow> error + node" where
  "procAddStmtsp (Node KProcedure fl o1 o2 o3 o4) newp = Inr (Node KProcedure fl o1 (o2 @ newp) o3 o4)"
| "procAddStmtsp (Node (KFTask dpi) fl o1 o2 o3 o4) newp = Inr (Node (KFTask dpi) fl o1 o2 (o3 @ newp) o4)"
| "procAddStmtsp (Node KWhile fl o1 o2 o3 o4) newp = Inr (Node KWhile fl o1 o2 (o3 @ newp) o4)"
| "procAddStmtsp nodep newp = Inl (FatalSrc (ErrNode nodep) ''Bad node type'')"

definition procCover :: "opts \<Rightarrow> node \<Rightarrow> vstate \<Rightarrow> error + (node \<times> vstate)" where
  "procCover opt nodep st =
     (if lineCoverageOn opt (m_state st) (nodeFileline nodep)
      then let st1 = lineTrack opt (nodeFileline nodep) st
           in case lineCoverInc opt (nodeFileline nodep) ''v_line'' ''block'' (m_state st1) 0 st1 of
                Inl e \<Rightarrow> Inl e
              | Inr (newp, st2) \<Rightarrow>
                  (case procAddStmtsp nodep newp of
                     Inl e \<Rightarrow> Inl e
                   | Inr nodep' \<Rightarrow> Inr (nodep', st2))
      else Inr (nodep, st))"

text \<open>
  \<open>visit(AstIf)\<close>: \<open>elsif\<close> holds when the then-branch exists and the else-branch is one
  conditional with nothing after it; that conditional is then marked through \<open>user1\<close>.
\<close>

definition isElsif :: "node list \<Rightarrow> node list \<Rightarrow> bool" where
  "isElsif thensp elsesp \<longleftrightarrow>
     thensp \<noteq> [] \<and> (case elsesp of [Node (KIf u) fl o1 o2 o3 o4] \<Rightarrow> True | _ \<Rightarrow> False)"

definition markElsif :: "node list \<Rightarrow> node list \<Rightarrow> node list" where
  "markElsif thensp elsesp =
     (case elsesp of
        [Node (KIf u) fl o1 o2 o3 o4] \<Rightarrow>
          if thensp \<noteq> [] then [Node (KIf True) fl o1 o2 o3 o4] else elsesp
      | _ \<Rightarrow> elsesp)"

text \<open>
  The insertion of the increments once both branches have been visited: \<open>thensp\<close> and
  \<open>elsesp\<close> are the visited branches. The result is the two branches with the
  increments added.
\<close>

definition ifCover ::
  "opts \<Rightarrow> fileline \<Rightarrow> bool \<Rightarrow> bool \<Rightarrow> bool \<Rightarrow> CheckState \<Rightarrow> CheckState
     \<Rightarrow> node list \<Rightarrow> node list \<Rightarrow> vstate \<Rightarrow> error + (node list \<times> node list \<times> vstate)" where
  "ifCover opt fl first_elsif cont_elsif final_elsif ifState elseState thensp elsesp st =
     (if \<not> (first_elsif \<or> cont_elsif \<or> final_elsif) \<and> lineCoverageOn opt ifState fl
          \<and> lineCoverageOn opt elseState fl
      then (case lineCoverInc opt fl ''v_branch'' ''if'' ifState 0 st of
              Inl e \<Rightarrow> Inl e
            | Inr (incif, st1) \<Rightarrow>
                (case lineCoverInc opt fl ''v_branch'' ''else'' elseState 1 st1 of
                   Inl e \<Rightarrow> Inl e
                 | Inr (incelse, st2) \<Rightarrow> Inr (thensp @ incif, elsesp @ incelse, st2)))
      else if first_elsif \<or> cont_elsif
      then (if lineCoverageOn opt ifState fl
            then (case lineCoverInc opt fl ''v_line'' ''elsif'' ifState 0 st of
                    Inl e \<Rightarrow> Inl e
                  | Inr (incif, st1) \<Rightarrow> Inr (thensp @ incif, elsesp, st1))
            else Inr (thensp, elsesp, st))
      else (case (if lineCoverageOn opt ifState fl
                  then (case lineCoverInc opt fl ''v_line'' ''if'' ifState 0 st of
                          Inl e \<Rightarrow> Inl e
                        | Inr (incif, st1) \<Rightarrow> Inr (thensp @ incif, st1))
                  else Inr (thensp, st)) of
              Inl e \<Rightarrow> Inl e
            | Inr (thensp', st1) \<Rightarrow>
                (if lineCoverageOn opt elseState fl
                 then (case lineCoverInc opt fl ''v_line'' ''else'' elseState 1 st1 of
                         Inl e \<Rightarrow> Inl e
                       | Inr (incelse, st2) \<Rightarrow> Inr (thensp', elsesp @ incelse, st2))
                 else Inr (thensp', elsesp, st1))))"

definition caseItemCover ::
  "opts \<Rightarrow> fileline \<Rightarrow> node list \<Rightarrow> vstate \<Rightarrow> error + (node list \<times> vstate)" where
  "caseItemCover opt fl stmtsp st =
     (if lineCoverageOn opt (m_state st) fl
      then let st1 = lineTrack opt fl st
           in case lineCoverInc opt fl ''v_line'' ''case'' (m_state st1) 0 st1 of
                Inl e \<Rightarrow> Inl e
              | Inr (newp, st2) \<Rightarrow> Inr (stmtsp @ newp, st2)
      else Inr (stmtsp, st))"

definition coverCover ::
  "opts \<Rightarrow> fileline \<Rightarrow> node list \<Rightarrow> vstate \<Rightarrow> error + (node list \<times> vstate)" where
  "coverCover opt fl coverincsp st =
     (if coverincsp = [] \<and> coverageUser opt
      then let st1 = lineTrack opt fl st
           in case newCoverInc opt fl (m_beginHier st1) ''v_user'' ''cover''
                     (linesCov st1 (m_state st1)) 0
                     (m_beginHier st1 @ ''_vlCoverageUserTrace'') st1 of
                Inl e \<Rightarrow> Inl e
              | Inr (newp, st2) \<Rightarrow> Inr (coverincsp @ newp, st2)
      else Inr (coverincsp, st))"

definition toggleVar :: "opts \<Rightarrow> fileline \<Rightarrow> var \<Rightarrow> vstate \<Rightarrow> error + vstate" where
  "toggleVar opt fl nodep st =
     (if m_modp st \<noteq> None \<and> \<not> m_inToggleOff st \<and> \<not> m_inModOff (m_state st) \<and> coverageOn fl
          \<and> coverageToggle opt
      then (case varIgnoreToggle opt nodep of
              Some disablep \<Rightarrow> Inr st
            | None \<Rightarrow>
                let newvarname = ''__Vtogcov__'' @ v_shortName nodep;
                    fl_nowarn = fl\<lparr> warnOffUnusedSignal := True \<rparr>;
                    chgVarp = nodep\<lparr> v_name := newvarname, v_shortName := newvarname,
                                     v_prettyName := newvarname, v_varType := MODULETEMP,
                                     v_isToggleCoverable := False, v_trace := False \<rparr>;
                    st1 = addModStmt (Node (KVar chgVarp) fl_nowarn [] [] [] []) st;
                    newvec = \<lparr> m_comment = [], m_varRefp = VarRef nodep READ,
                               m_chgRefp = VarRef chgVarp WRITE \<rparr>
                in toggleVarRecurse opt (v_dtype nodep) 0 newvec fl nodep chgVarp st1)
      else Inr st)"

text \<open>
  The traversal. \<open>visit\<close> returns what stands in the place of the node afterwards: the
  node itself, or nothing when the node unlinked and deleted itself.
  \<open>iterateAndNextNull\<close> visits a list linked by \<open>nextp()\<close>, \<open>iterateChildren\<close> the four
  operand slots of a node in turn.
\<close>

function (sequential)
    visit :: "opts \<Rightarrow> node \<Rightarrow> vstate \<Rightarrow> error + (node list \<times> vstate)"
  and iterateChildren :: "opts \<Rightarrow> node \<Rightarrow> vstate \<Rightarrow> error + (node \<times> vstate)"
  and iterateProcedure :: "opts \<Rightarrow> node \<Rightarrow> vstate \<Rightarrow> error + (node \<times> vstate)"
  and iterateAndNextNull :: "opts \<Rightarrow> node list \<Rightarrow> vstate \<Rightarrow> error + (node list \<times> vstate)"
where
  "iterateAndNextNull opt [] st = Inr ([], st)"
| "iterateAndNextNull opt (nodep # nextp) st =
     (case visit opt nodep st of
        Inl e \<Rightarrow> Inl e
      | Inr (r, st1) \<Rightarrow>
          (case iterateAndNextNull opt nextp st1 of
             Inl e \<Rightarrow> Inl e
           | Inr (rs, st2) \<Rightarrow> Inr (r @ rs, st2)))"
| "iterateChildren opt (Node k fl o1 o2 o3 o4) st =
     (case iterateAndNextNull opt o1 st of
        Inl e \<Rightarrow> Inl e
      | Inr (o1', st1) \<Rightarrow>
          (case iterateAndNextNull opt o2 st1 of
             Inl e \<Rightarrow> Inl e
           | Inr (o2', st2) \<Rightarrow>
               (case iterateAndNextNull opt o3 st2 of
                  Inl e \<Rightarrow> Inl e
                | Inr (o3', st3) \<Rightarrow>
                    (case iterateAndNextNull opt o4 st3 of
                       Inl e \<Rightarrow> Inl e
                     | Inr (o4', st4) \<Rightarrow> Inr (Node k fl o1' o2' o3' o4', st4)))))"
| "iterateProcedure opt nodep st =
     (let st1 = createHandle (nodeFileline nodep) (st\<lparr> m_inToggleOff := True \<rparr>)
      in case iterateChildren opt nodep st1 of
           Inl e \<Rightarrow> Inl e
         | Inr (nodep', st2) \<Rightarrow>
             (case procCover opt nodep' st2 of
                Inl e \<Rightarrow> Inl e
              | Inr (nodep'', st3) \<Rightarrow>
                  Inr (nodep'', st3\<lparr> m_state := m_state st,
                                      m_inToggleOff := m_inToggleOff st \<rparr>)))"
| "visit opt (Node (KModule name isTop isClass) fl o1 o2 o3 o4) st =
     (let origModp = m_modp st;
          st1 = createHandle fl st;
          st2 = st1\<lparr> m_modp := Some \<lparr> mod_prettyName = name, mod_isClass = isClass \<rparr>,
                      m_modStmts := [] \<rparr>;
          st3 = st2\<lparr> m_state := (m_state st2)\<lparr> m_inModOff := isTop \<rparr> \<rparr>;
          st4 = (if origModp = None
                 then st3\<lparr> m_varnames := (\<lambda>_. 0), m_handleLines := (\<lambda>_. {}) \<rparr>
                 else st3)
      in case iterateChildren opt (Node (KModule name isTop isClass) fl o1 o2 o3 o4) st4 of
           Inl e \<Rightarrow> Inl e
         | Inr (Node k' fl' o1' o2' o3' o4', st5) \<Rightarrow>
             Inr ([Node k' fl' o1' (o2' @ m_modStmts st5) o3' o4'],
                  st5\<lparr> m_modp := origModp, m_state := m_state st,
                       m_modStmts := m_modStmts st \<rparr>))"
| "visit opt (Node KProcedure fl o1 o2 o3 o4) st =
     (case iterateProcedure opt (Node KProcedure fl o1 o2 o3 o4) st of
        Inl e \<Rightarrow> Inl e
      | Inr (nodep', st1) \<Rightarrow> Inr ([nodep'], st1))"
| "visit opt (Node KWhile fl o1 o2 o3 o4) st =
     (case iterateProcedure opt (Node KWhile fl o1 o2 o3 o4) st of
        Inl e \<Rightarrow> Inl e
      | Inr (nodep', st1) \<Rightarrow> Inr ([nodep'], st1))"
| "visit opt (Node (KFTask dpiImport) fl o1 o2 o3 o4) st =
     (if \<not> dpiImport
      then (case iterateProcedure opt (Node (KFTask dpiImport) fl o1 o2 o3 o4) st of
              Inl e \<Rightarrow> Inl e
            | Inr (nodep', st1) \<Rightarrow> Inr ([nodep'], st1))
      else Inr ([Node (KFTask dpiImport) fl o1 o2 o3 o4], st))"
| "visit opt (Node (KVar v) fl o1 o2 o3 o4) st =
     (case iterateChildren opt (Node (KVar v) fl o1 o2 o3 o4) st of
        Inl e \<Rightarrow> Inl e
      | Inr (nodep', st1) \<Rightarrow>
          (case toggleVar opt fl v st1 of
             Inl e \<Rightarrow> Inl e
           | Inr st2 \<Rightarrow> Inr ([nodep'], st2)))"
| "visit opt (Node (KIf user1) fl condp thensp elsesp o4) st =
     (if m_on (m_state st)
      then let elsif = isElsif thensp elsesp;
               elsesp1 = markElsif thensp elsesp;
               first_elsif = (\<not> user1 \<and> elsif);
               cont_elsif = (user1 \<and> elsif);
               final_elsif = (user1 \<and> \<not> elsif \<and> elsesp \<noteq> []);
               lastState = m_state st
           in case iterateAndNextNull opt thensp (createHandle fl st) of
                Inl e \<Rightarrow> Inl e
              | Inr (thensp', st1) \<Rightarrow>
                  let st2 = lineTrack opt fl st1;
                      ifState = m_state st2
                  in case iterateAndNextNull opt elsesp1
                            (createHandle fl (st2\<lparr> m_state := lastState \<rparr>)) of
                       Inl e \<Rightarrow> Inl e
                     | Inr (elsesp', st3) \<Rightarrow>
                         let elseState = m_state st3
                         in case ifCover opt fl first_elsif cont_elsif final_elsif
                                   ifState elseState thensp' elsesp'
                                   (st3\<lparr> m_state := lastState \<rparr>) of
                              Inl e \<Rightarrow> Inl e
                            | Inr (thensp'', elsesp'', st4) \<Rightarrow>
                                Inr ([Node (KIf user1) fl condp thensp'' elsesp'' o4],
                                     st4\<lparr> m_state := lastState \<rparr>)
      else Inr ([Node (KIf user1) fl condp thensp elsesp o4], st))"
| "visit opt (Node KCaseItem fl condsp stmtsp o3 o4) st =
     (if lineCoverageOn opt (m_state st) fl
      then (case iterateAndNextNull opt stmtsp (createHandle fl st) of
              Inl e \<Rightarrow> Inl e
            | Inr (stmtsp', st1) \<Rightarrow>
                (case caseItemCover opt fl stmtsp' st1 of
                   Inl e \<Rightarrow> Inl e
                 | Inr (stmtsp'', st2) \<Rightarrow>
                     Inr ([Node KCaseItem fl condsp stmtsp'' o3 o4],
                          st2\<lparr> m_state := m_state st \<rparr>)))
      else Inr ([Node KCaseItem fl condsp stmtsp o3 o4], st))"
| "visit opt (Node KCover fl o1 o2 coverincsp o4) st =
     (let st1 = createHandle fl (st\<lparr> m_state := (m_state st)\<lparr> m_on := True \<rparr> \<rparr>)
      in case iterateChildren opt (Node KCover fl o1 o2 coverincsp o4) st1 of
           Inl e \<Rightarrow> Inl e
         | Inr (Node k' fl' o1' o2' coverincsp' o4', st2) \<Rightarrow>
             (case coverCover opt fl coverincsp' st2 of
                Inl e \<Rightarrow> Inl e
              | Inr (coverincsp'', st3) \<Rightarrow>
                  Inr ([Node k' fl' o1' o2' coverincsp'' o4'],
                       st3\<lparr> m_state := m_state st \<rparr>)))"
| "visit opt (Node KStop fl o1 o2 o3 o4) st =
     Inr ([Node KStop fl o1 o2 o3 o4], st\<lparr> m_state := (m_state st)\<lparr> m_on := False \<rparr> \<rparr>)"
| "visit opt (Node (KPragma COVERAGE_BLOCK_OFF) fl o1 o2 o3 o4) st =
     Inr ([], st\<lparr> m_state := (m_state st)\<lparr> m_on := False \<rparr> \<rparr>)"
| "visit opt (Node (KPragma pragType) fl o1 o2 o3 o4) st =
     (if m_on (m_state st)
      then (case iterateChildren opt (Node (KPragma pragType) fl o1 o2 o3 o4) st of
              Inl e \<Rightarrow> Inl e
            | Inr (nodep', st1) \<Rightarrow> Inr ([nodep'], lineTrack opt fl st1))
      else Inr ([Node (KPragma pragType) fl o1 o2 o3 o4], lineTrack opt fl st))"
| "visit opt (Node (KBegin name) fl o1 o2 o3 o4) st =
     (let st1 = st\<lparr> m_inToggleOff := True \<rparr>;
          st2 = (if name \<noteq> []
                 then st1\<lparr> m_beginHier := m_beginHier st1
                                @ (if m_beginHier st1 \<noteq> [] then ''.'' else []) @ name \<rparr>
                 else st1)
      in case iterateChildren opt (Node (KBegin name) fl o1 o2 o3 o4) st2 of
           Inl e \<Rightarrow> Inl e
         | Inr (nodep', st3) \<Rightarrow>
             Inr ([nodep'], (lineTrack opt fl st3)\<lparr> m_beginHier := m_beginHier st,
                                                    m_inToggleOff := m_inToggleOff st \<rparr>))"
| "visit opt (Node k fl o1 o2 o3 o4) st =
     (case iterateChildren opt (Node k fl o1 o2 o3 o4) st of
        Inl e \<Rightarrow> Inl e
      | Inr (nodep', st1) \<Rightarrow> Inr ([nodep'], lineTrack opt fl st1))"
  by pat_completeness auto
termination
  by (relation "inv_image (less_than <*lex*> less_than) (\<lambda>x. case x of
        Inl (Inl (opt, n, st)) \<Rightarrow> (size n, 2)
      | Inl (Inr (opt, n, st)) \<Rightarrow> (size n, 0)
      | Inr (Inl (opt, n, st)) \<Rightarrow> (size n, 1)
      | Inr (Inr (opt, ns, st)) \<Rightarrow> (size_list size ns, 0))")
     (auto simp: markElsif_def split: list.splits nkind.splits node.splits if_splits)

text \<open>
  The visitor's member \<open>m_inuser1\<close> (a \<open>VNUser1InUse\<close>) takes hold of the \<open>user1()\<close>
  field when the visitor is constructed, so that every node reads it as unset until
  the pass sets it: whatever mark a conditional of the input carries is not seen.
\<close>

fun clearUser1 :: "node \<Rightarrow> node" where
  "clearUser1 (Node k fl o1 o2 o3 o4) =
     Node (case k of KIf user1 \<Rightarrow> KIf False | _ \<Rightarrow> k) fl
       (map clearUser1 o1) (map clearUser1 o2) (map clearUser1 o3) (map clearUser1 o4)"

text \<open>
  The pass: \<open>CoverageVisitor{rootp}\<close> visits the children of the netlist from the
  initial member values.
\<close>

definition coverage :: "opts \<Rightarrow> node list \<Rightarrow> error + node list" where
  "coverage opt rootChildren =
     (case iterateAndNextNull opt (map clearUser1 rootChildren) initState of
        Inl e \<Rightarrow> Inl e
      | Inr (r, st) \<Rightarrow> Inr r)"

section \<open>Notions used to state the properties\<close>

subsection \<open>Reading a rendered line-range string back\<close>

text \<open>
  Modelled from the spec: the reading of a rendered string that the range-rendering
  property describes: split on commas, then on hyphens, and expand each range. The pass
  has no such function; \<open>parseLines\<close> follows the spec's words and is compared with
  \<open>linesCov\<close>.
\<close>

fun splitOn :: "char \<Rightarrow> string \<Rightarrow> string list" where
  "splitOn sep [] = [[]]"
| "splitOn sep (c # cs) =
     (if c = sep then [] # splitOn sep cs
      else (case splitOn sep cs of [] \<Rightarrow> [[c]] | p # ps \<Rightarrow> (c # p) # ps))"

definition digitVal :: "char \<Rightarrow> nat" where
  "digitVal c = of_char c - 48"

definition parseNat :: "string \<Rightarrow> nat" where
  "parseNat s = foldl (\<lambda>a c. 10 * a + digitVal c) 0 s"

definition parseRange :: "string \<Rightarrow> int list" where
  "parseRange s =
     (case splitOn CHR ''-'' s of
        [a] \<Rightarrow> [int (parseNat a)]
      | [a, b] \<Rightarrow> [int (parseNat a) .. int (parseNat b)]
      | _ \<Rightarrow> [])"

definition parseLines :: "string \<Rightarrow> int list" where
  "parseLines s = (if s = [] then [] else concat (map parseRange (splitOn CHR '','' s)))"

text \<open>The maximal runs of consecutive lines, with the run \<open>(f, l)\<close> that is still open.\<close>

fun lineRuns :: "int \<Rightarrow> int \<Rightarrow> int list \<Rightarrow> (int \<times> int) list" where
  "lineRuns f l [] = [(f, l)]"
| "lineRuns f l (x # xs) = (if x = l + 1 then lineRuns f (l + 1) xs else (f, l) # lineRuns x x xs)"

definition isDigit :: "char \<Rightarrow> bool" where
  "isDigit c \<longleftrightarrow> c \<in> set ''0123456789''"

subsection \<open>What a visit leaves unchanged\<close>

text \<open>
  \<open>frame st st'\<close>: the module, the toggle-suppression flag and the begin hierarchy are the
  same, and the scope state is the same except that it may have been switched off.
\<close>

definition frame :: "vstate \<Rightarrow> vstate \<Rightarrow> bool" where
  "frame st st' \<longleftrightarrow> m_modp st' = m_modp st \<and> m_inToggleOff st' = m_inToggleOff st
      \<and> m_beginHier st' = m_beginHier st
      \<and> m_inModOff (m_state st') = m_inModOff (m_state st)
      \<and> m_handle (m_state st') = m_handle (m_state st)
      \<and> m_nodep (m_state st') = m_nodep (m_state st)
      \<and> (m_on (m_state st') \<longrightarrow> m_on (m_state st))"

text \<open>The fatal error of the toggle decomposition, raised on the offending type node.\<close>

fun toggleFatal :: "error \<Rightarrow> bool" where
  "toggleFatal (FatalSrc (ErrDType (OtherDType w nm)) msg) =
     (msg = ''Unexpected node data type in toggle coverage generation: '' @ nm)"
| "toggleFatal e = False"

text \<open>
  The outcome of a visit started in \<open>st\<close>: an error is the fatal error of the toggle
  decomposition whenever there is a current module; a result leaves the frame intact.
\<close>

definition visitOk :: "vstate \<Rightarrow> error + ('a \<times> vstate) \<Rightarrow> bool" where
  "visitOk st res =
     (case res of
        Inl e \<Rightarrow> m_modp st \<noteq> None \<longrightarrow> toggleFatal e
      | Inr (x, st') \<Rightarrow> frame st st')"

definition toggleOk :: "vstate \<Rightarrow> error + vstate \<Rightarrow> bool" where
  "toggleOk st res =
     (case res of
        Inl e \<Rightarrow> m_modp st \<noteq> None \<longrightarrow> toggleFatal e
      | Inr st' \<Rightarrow> \<exists>new. st' = st\<lparr> m_modStmts := m_modStmts st @ new \<rparr>)"

fun isProcKind :: "nkind \<Rightarrow> bool" where
  "isProcKind KProcedure = True"
| "isProcKind KWhile = True"
| "isProcKind (KFTask dpi) = True"
| "isProcKind k = False"

subsection \<open>Reading the output tree\<close>

fun isAssign :: "node \<Rightarrow> bool" where
  "isAssign (Node (KAssign lhs rhs) fl o1 o2 o3 o4) = True"
| "isAssign n = False"

text \<open>
  \<open>isIncrement newp fl declp\<close>: the list \<open>newp\<close> is one coverage increment for the
  declaration \<open>declp\<close>, followed by nothing but the update of its trace counter.
\<close>

definition isIncrement :: "node list \<Rightarrow> fileline \<Rightarrow> coverdecl \<Rightarrow> bool" where
  "isIncrement newp fl declp \<longleftrightarrow>
     (case newp of
        [] \<Rightarrow> False
      | incp # rest \<Rightarrow> incp = Node (KCoverInc declp) fl [] [] [] [] \<and> list_all isAssign rest)"

definition lineDecl :: "string \<Rightarrow> modref \<Rightarrow> string \<Rightarrow> string \<Rightarrow> int \<Rightarrow> coverdecl" where
  "lineDecl page_prefix modp type linescov offset =
     \<lparr> cd_page = page_prefix @ ''/'' @ mod_prettyName modp, cd_comment = type,
       cd_linescov = linescov, cd_offset = offset, cd_hier = [] \<rparr>"

definition offPragma :: "fileline \<Rightarrow> node list \<Rightarrow> node list \<Rightarrow> node list \<Rightarrow> node list \<Rightarrow> node" where
  "offPragma fl o1 o2 o3 o4 = Node (KPragma COVERAGE_BLOCK_OFF) fl o1 o2 o3 o4"

fun offIn :: "node \<Rightarrow> bool" where
  "offIn (Node k fl o1 o2 o3 o4) =
     (k = KPragma COVERAGE_BLOCK_OFF \<or> (\<exists>c\<in>set (o1 @ o2 @ o3 @ o4). offIn c))"

text \<open>
  The kinds of node whose children the traversal may leave unvisited: a conditional
  (when the scope is disabled), a case arm (when line coverage is inactive), an imported
  task, and a pragma or stop statement (which have no children in a tree from the
  parser). \<open>exposedOff n\<close>: a scope-off pragma occurs in \<open>n\<close> and not below
  a node of such a kind.
\<close>

fun gateKind :: "nkind \<Rightarrow> bool" where
  "gateKind (KIf user1) = True"
| "gateKind KCaseItem = True"
| "gateKind (KFTask dpiImport) = dpiImport"
| "gateKind (KPragma pragType) = True"
| "gateKind KStop = True"
| "gateKind k = False"

fun exposedOff :: "node \<Rightarrow> bool" where
  "exposedOff (Node k fl o1 o2 o3 o4) =
     (k = KPragma COVERAGE_BLOCK_OFF
      \<or> (\<not> gateKind k \<and> (\<exists>c\<in>set (o1 @ o2 @ o3 @ o4). exposedOff c)))"

definition cleanList :: "node list \<Rightarrow> bool" where
  "cleanList ns = list_all (\<lambda>n. \<not> exposedOff n) ns"


definition cleanR :: "('a \<Rightarrow> bool) \<Rightarrow> vstate \<Rightarrow> error + ('a \<times> vstate) \<Rightarrow> bool" where
  "cleanR R st res =
     (case res of
        Inl e \<Rightarrow> True
      | Inr (x, st') \<Rightarrow> R x \<and> (cleanList (m_modStmts st) \<longrightarrow> cleanList (m_modStmts st')))"


definition visitOutput :: "error + (node list \<times> vstate) \<Rightarrow> node list" where
  "visitOutput res = (case res of Inl e \<Rightarrow> [] | Inr (r, st) \<Rightarrow> r)"


fun elsespOf :: "node \<Rightarrow> node list" where
  "elsespOf (Node k fl o1 o2 o3 o4) = o3"

text \<open>The toggle records among the statements added to a module, and what they point to.\<close>

fun rootVar :: "expr \<Rightarrow> var option" where
  "rootVar (VarRef v a) = Some v"
| "rootVar (Sel e lsb w) = rootVar e"
| "rootVar (ArraySel e i) = rootVar e"
| "rootVar (StructSel e nm d) = rootVar e"
| "rootVar e = None"

fun toggleRefs :: "node list \<Rightarrow> (expr \<times> expr) list" where
  "toggleRefs [] = []"
| "toggleRefs (Node (KCoverToggle origp changep) fl o1 o2 o3 o4 # ns) =
     (origp, changep) # toggleRefs ns"
| "toggleRefs (n # ns) = toggleRefs ns"

fun toggleComments :: "node list \<Rightarrow> string list" where
  "toggleComments [] = []"
| "toggleComments (Node (KCoverDecl declp) fl o1 o2 o3 o4 # ns) =
     cd_comment declp # toggleComments ns"
| "toggleComments (n # ns) = toggleComments ns"

definition toggleOutput :: "error + vstate \<Rightarrow> node list" where
  "toggleOutput res = (case res of Inl e \<Rightarrow> [] | Inr st \<Rightarrow> m_modStmts st)"

subsection \<open>What the toggle decomposition adds\<close>

definition startsWith :: "string \<Rightarrow> string \<Rightarrow> bool" where
  "startsWith p s \<longleftrightarrow> take (length p) s = p"

text \<open>
  Whether the decomposition of a type passes through the members of an unpacked struct
  (of a union only the first member is decomposed).
\<close>

fun reachesUnpackedStruct :: "dtype \<Rightarrow> bool"
  and membersReachUnpackedStruct :: "members \<Rightarrow> bool" where
  "reachesUnpackedStruct (BasicDType w ranged lo hi) = False"
| "reachesUnpackedStruct (UnpackArrayDType w lo hi d) = reachesUnpackedStruct d"
| "reachesUnpackedStruct (PackArrayDType w lo hi d) = reachesUnpackedStruct d"
| "reachesUnpackedStruct (StructDType w packed ms) = (\<not> packed \<or> membersReachUnpackedStruct ms)"
| "reachesUnpackedStruct (UnionDType w ms) =
     (case ms of NoMember \<Rightarrow> False | MemberDType name lsb d nextp \<Rightarrow> reachesUnpackedStruct d)"
| "reachesUnpackedStruct (OtherDType w nm) = False"
| "membersReachUnpackedStruct NoMember = False"
| "membersReachUnpackedStruct (MemberDType name lsb d nextp) =
     (reachesUnpackedStruct d \<or> membersReachUnpackedStruct nextp)"

text \<open>
  \<open>leafOk lax varp ent n\<close>: a statement added to the module for a toggle point below the
  entry \<open>ent\<close> is a declaration whose comment starts with the variable's name and the
  entry's comment, or a toggle record whose first reference points where the entry's
  first does and whose second points where the entry's second does; with \<open>lax\<close>, the
  second may instead point where the entry's first does.
\<close>

definition leafOk :: "bool \<Rightarrow> var \<Rightarrow> ToggleEnt \<Rightarrow> node \<Rightarrow> bool" where
  "leafOk lax varp ent n =
     (case kind n of
        KCoverDecl declp \<Rightarrow> startsWith (v_name varp @ m_comment ent) (cd_comment declp)
      | KCoverToggle origp changep \<Rightarrow>
          rootVar origp = rootVar (m_varRefp ent)
          \<and> (rootVar changep = rootVar (m_chgRefp ent)
               \<or> (lax \<and> rootVar changep = rootVar (m_varRefp ent)))
      | _ \<Rightarrow> False)"

definition leavesOk :: "(node \<Rightarrow> bool) \<Rightarrow> vstate \<Rightarrow> error + vstate \<Rightarrow> bool" where
  "leavesOk P st res =
     (case res of
        Inl e \<Rightarrow> True
      | Inr st' \<Rightarrow> \<exists>new. st' = st\<lparr> m_modStmts := m_modStmts st @ new \<rparr> \<and> list_all P new)"

subsection \<open>The bit-lanes of a type\<close>

text \<open>
  The bit-lanes of a value of a type, by the text that names each below the value: an
  index in brackets for a bit of a ranged basic type and for an array element, a dot and
  the member's name for a struct member, and for a union its first member only. A basic
  type without a range is one lane.
\<close>

fun laneNames :: "dtype \<Rightarrow> string list"
  and memberLaneNames :: "members \<Rightarrow> string list" where
  "laneNames (BasicDType w ranged lo hi) =
     (if ranged then map (\<lambda>i. ''['' @ cvtToStr i @ '']'') [lo .. hi] else [[]])"
| "laneNames (UnpackArrayDType w lo hi d) =
     concat (map (\<lambda>i. map (\<lambda>s. ''['' @ cvtToStr i @ '']'' @ s) (laneNames d)) [lo .. hi])"
| "laneNames (PackArrayDType w lo hi d) =
     concat (map (\<lambda>i. map (\<lambda>s. ''['' @ cvtToStr i @ '']'' @ s) (laneNames d)) [lo .. hi])"
| "laneNames (StructDType w packed ms) = memberLaneNames ms"
| "laneNames (UnionDType w ms) =
     (case ms of NoMember \<Rightarrow> []
      | MemberDType name lsb d nextp \<Rightarrow> map (\<lambda>s. ''.'' @ name @ s) (laneNames d))"
| "laneNames (OtherDType w nm) = []"
| "memberLaneNames NoMember = []"
| "memberLaneNames (MemberDType name lsb d nextp) =
     map (\<lambda>s. ''.'' @ name @ s) (laneNames d) @ memberLaneNames nextp"

text \<open>
  A type that the decomposition has a branch for at every level it descends to (of a
  union it descends to the first member only).
\<close>

fun decomposable :: "dtype \<Rightarrow> bool"
  and membersDecomposable :: "members \<Rightarrow> bool" where
  "decomposable (BasicDType w ranged lo hi) = True"
| "decomposable (UnpackArrayDType w lo hi d) = decomposable d"
| "decomposable (PackArrayDType w lo hi d) = decomposable d"
| "decomposable (StructDType w packed ms) = membersDecomposable ms"
| "decomposable (UnionDType w ms) =
     (case ms of NoMember \<Rightarrow> True | MemberDType name lsb d nextp \<Rightarrow> decomposable d)"
| "decomposable (OtherDType w nm) = False"
| "membersDecomposable NoMember = True"
| "membersDecomposable (MemberDType name lsb d nextp) =
     (decomposable d \<and> membersDecomposable nextp)"

text \<open>
  \<open>pointsR ok varp names st res\<close>: the decomposition fails only outside a module or
  when not \<open>ok\<close>; when it returns, it has added to the module two statements for each
  of \<open>names\<close>, in that order: the declaration of a toggle point whose comment is the
  variable's name followed by the lane's name, and one toggle record.
\<close>

definition pointsR :: "bool \<Rightarrow> var \<Rightarrow> string list \<Rightarrow> vstate \<Rightarrow> error + vstate \<Rightarrow> bool" where
  "pointsR ok varp names st res =
     (case res of
        Inl e \<Rightarrow> \<not> (ok \<and> m_modp st \<noteq> None)
      | Inr st' \<Rightarrow> \<exists>new. st' = st\<lparr> m_modStmts := m_modStmts st @ new \<rparr>
                     \<and> toggleComments new = map (\<lambda>s. v_name varp @ s) names
                     \<and> length (toggleRefs new) = length names
                     \<and> length new = 2 * length names)"

subsection \<open>What leaves a scope disabled\<close>

text \<open>
  The kinds of node whose visit ends by putting the scope state back as it found it:
  their children are visited in scopes of their own, or not at all.
\<close>

fun ownScope :: "nkind \<Rightarrow> bool" where
  "ownScope (KModule name isTop isClass) = True"
| "ownScope KProcedure = True"
| "ownScope KWhile = True"
| "ownScope (KFTask dpiImport) = True"
| "ownScope (KIf user1) = True"
| "ownScope KCaseItem = True"
| "ownScope KCover = True"
| "ownScope k = False"

text \<open>
  \<open>disables n\<close>: the statement \<open>n\<close> is a scope-off pragma or a stop statement, or holds
  one that is not inside a node with a scope of its own.
\<close>

fun disables :: "node \<Rightarrow> bool" where
  "disables (Node k fl o1 o2 o3 o4) =
     (k = KPragma COVERAGE_BLOCK_OFF \<or> k = KStop
      \<or> (\<not> ownScope k \<and> (\<exists>c\<in>set (o1 @ o2 @ o3 @ o4). disables c)))"

fun childrenDisable :: "node \<Rightarrow> bool" where
  "childrenDisable (Node k fl o1 o2 o3 o4) = list_ex disables (o1 @ o2 @ o3 @ o4)"

definition onR :: "bool \<Rightarrow> vstate \<Rightarrow> error + ('a \<times> vstate) \<Rightarrow> bool" where
  "onR off st res =
     (case res of
        Inl e \<Rightarrow> True
      | Inr (x, st') \<Rightarrow> m_on (m_state st') = (m_on (m_state st) \<and> \<not> off))"

subsection \<open>Concrete inputs\<close>

definition exFl :: fileline where
  "exFl = \<lparr> filenameno = 1, filebasenameNoExt = ''t'', lineno = 7, firstLineno = 7,
            lastLineno = 8, coverageOn = True, warnOffUnusedSignal = False \<rparr>"

definition exOpt :: opts where
  "exOpt = \<lparr> coverageLine = True, coverageToggle = True, coverageUser = True,
             coverageUnderscore = False, coverageMaxWidth = 256, traceCoverage = False \<rparr>"

definition exOptTrace :: opts where
  "exOptTrace = exOpt\<lparr> traceCoverage := True \<rparr>"

definition exMod :: modref where
  "exMod = \<lparr> mod_prettyName = ''m'', mod_isClass = False \<rparr>"

text \<open>A state inside the module \<open>m\<close>, in an enabled scope.\<close>

definition exState :: vstate where
  "exState = createHandle exFl (initState\<lparr> m_modp := Some exMod \<rparr>)"

definition exStmt :: node where
  "exStmt = Node KOther exFl [] [] [] []"

definition exStop :: node where
  "exStop = Node KStop exFl [] [] [] []"

text \<open>A variable \<open>s\<close> whose type is an unpacked struct with the single one-bit member \<open>a\<close>.\<close>

definition exStructVar :: var where
  "exStructVar = \<lparr> v_name = ''s'', v_shortName = ''s'', v_prettyName = ''s'', v_varType = VAR,
       v_dtype = StructDType 1 False (MemberDType ''a'' 0 (BasicDType 1 False 0 0) NoMember),
       v_width = 1, v_arrayUnpackedElements = 1, v_isToggleCoverable = True,
       v_trace = False \<rparr>"

text \<open>A variable \<open>u\<close> whose type is a union of a 4-bit member \<open>a\<close> and an 8-bit member \<open>b\<close>.\<close>

definition exUnionVar :: var where
  "exUnionVar = \<lparr> v_name = ''u'', v_shortName = ''u'', v_prettyName = ''u'', v_varType = VAR,
       v_dtype = UnionDType 8 (MemberDType ''a'' 0 (BasicDType 4 True 0 3)
                   (MemberDType ''b'' 0 (BasicDType 8 True 0 7) NoMember)),
       v_width = 8, v_arrayUnpackedElements = 1, v_isToggleCoverable = True,
       v_trace = False \<rparr>"

text \<open>The shadow variable that the pass creates for \<open>u\<close>.\<close>

definition exUnionShadow :: var where
  "exUnionShadow = exUnionVar\<lparr> v_name := ''__Vtogcov__u'', v_shortName := ''__Vtogcov__u'',
       v_prettyName := ''__Vtogcov__u'', v_varType := MODULETEMP,
       v_isToggleCoverable := False, v_trace := False \<rparr>"


text \<open>A case arm whose statement is a conditional with a scope-off pragma in its then-branch.\<close>

definition exArmNested :: node where
  "exArmNested =
     Node KCaseItem exFl [] [Node (KIf False) exFl [] [offPragma exFl [] [] [] []] [] []] [] []"

text \<open>A case arm whose statement is a begin block holding a scope-off pragma.\<close>

definition exArmBegin :: node where
  "exArmBegin =
     Node KCaseItem exFl [] [Node (KBegin ''b'') exFl [] [offPragma exFl [] [] [] [], exStmt] [] []] [] []"


text \<open>A line table holding the lines 3, 4, 5, 9, 10 and 12 under handle 1.\<close>

definition exLines :: vstate where
  "exLines = initState\<lparr> m_handleLines := (\<lambda>_. {})(1 := {3, 4, 5, 9, 10, 12}) \<rparr>"

definition exCheck :: CheckState where
  "exCheck = \<lparr> m_on = True, m_inModOff = False, m_handle = 1, m_nodep = Some exFl \<rparr>"

text \<open>A module with one variable of a type that the decomposition has no branch for.\<close>

fun isModule :: "node \<Rightarrow> bool" where
  "isModule (Node (KModule name isTop isClass) fl o1 o2 o3 o4) = True"
| "isModule n = False"

definition exBadVar :: var where
  "exBadVar = \<lparr> v_name = ''c'', v_shortName = ''c'', v_prettyName = ''c'', v_varType = VAR,
       v_dtype = OtherDType 8 ''CLASSREFDTYPE'', v_width = 8, v_arrayUnpackedElements = 1,
       v_isToggleCoverable = True, v_trace = False \<rparr>"

definition exBadNetlist :: "node list" where
  "exBadNetlist = [Node (KModule ''m'' False False) exFl [] [Node (KVar exBadVar) exFl [] [] [] []] [] []]"

section \<open>Properties of the line-range rendering\<close>

lemma digit_char_isDigit: "d < 10 \<Longrightarrow> isDigit (digit_char d)"
proof -
  assume "d < 10"
  then have "d \<in> {0,1,2,3,4,5,6,7,8,9}" by auto
  then show ?thesis by (auto simp: digit_char_def isDigit_def)
qed

lemma digitVal_digit_char: "d < 10 \<Longrightarrow> digitVal (digit_char d) = d"
proof -
  assume "d < 10"
  then have "d \<in> {0,1,2,3,4,5,6,7,8,9}" by auto
  then show ?thesis by (auto simp: digit_char_def digitVal_def)
qed

lemma cvtNat_digits: "cvtNat n \<noteq> [] \<and> (\<forall>c\<in>set (cvtNat n). isDigit c)"
proof (induction n rule: cvtNat.induct)
  case (1 n)
  show ?case
  proof (cases "n < 10")
    case True
    then show ?thesis by (subst cvtNat.simps, subst (2) cvtNat.simps) (simp add: digit_char_isDigit)
  next
    case False
    with 1 have "cvtNat (n div 10) \<noteq> [] \<and> (\<forall>c\<in>set (cvtNat (n div 10)). isDigit c)" by simp
    moreover have "isDigit (digit_char (n mod 10))" by (simp add: digit_char_isDigit)
    ultimately show ?thesis using False
      by (subst cvtNat.simps, subst (2) cvtNat.simps) auto
  qed
qed

lemma parseNat_snoc: "parseNat (s @ [c]) = 10 * parseNat s + digitVal c"
  by (simp add: parseNat_def)

lemma parseNat_cvtNat: "parseNat (cvtNat n) = n"
proof (induction n rule: cvtNat.induct)
  case (1 n)
  show ?case
  proof (cases "n < 10")
    case True
    then show ?thesis by (subst cvtNat.simps) (simp add: parseNat_def digitVal_digit_char)
  next
    case False
    with 1 have "parseNat (cvtNat (n div 10)) = n div 10" by simp
    then show ?thesis using False
      by (subst cvtNat.simps) (simp add: parseNat_snoc digitVal_digit_char)
  qed
qed

lemma isDigit_not_sep: "isDigit c \<Longrightarrow> c \<noteq> CHR '','' \<and> c \<noteq> CHR ''-''"
  by (auto simp: isDigit_def)

lemma cvtToStr_pos: "0 < x \<Longrightarrow> cvtToStr x = cvtNat (nat x)"
  by (simp add: cvtToStr_def)

lemma cvtToStr_props:
  assumes "0 < x"
  shows "cvtToStr x \<noteq> []" and "CHR '','' \<notin> set (cvtToStr x)" and "CHR ''-'' \<notin> set (cvtToStr x)"
    and "int (parseNat (cvtToStr x)) = x"
  using assms cvtNat_digits[of "nat x"] isDigit_not_sep
  by (auto simp: cvtToStr_pos parseNat_cvtNat)

lemma splitOn_nonempty: "splitOn sep s \<noteq> []"
  by (induction s) (auto split: list.splits)

lemma splitOn_none: "sep \<notin> set a \<Longrightarrow> splitOn sep a = [a]"
  by (induction a) auto

lemma splitOn_append: "sep \<notin> set a \<Longrightarrow> splitOn sep (a @ sep # b) = a # splitOn sep b"
  by (induction a) auto

lemma splitOn_joined:
  "sep \<notin> set p \<Longrightarrow> \<forall>q\<in>set qs. sep \<notin> set q \<Longrightarrow>
     splitOn sep (p @ concat (map (\<lambda>q. sep # q) qs)) = p # qs"
proof (induction qs arbitrary: p)
  case Nil
  then show ?case by (simp add: splitOn_none)
next
  case (Cons q qs)
  then show ?case by (simp add: splitOn_append)
qed

text \<open>What the loop has written when it ends: every finished run, flushed in order.\<close>

lemma linesFlush_nonempty: "out \<noteq> [] \<Longrightarrow> linesFlush out f l \<noteq> []"
  by (simp add: linesFlush_def)

lemma linesLoop_runs:
  assumes "f \<noteq> 0" and "\<forall>x\<in>set xs. x \<noteq> 0"
  shows "(case linesLoop xs (out, f, l) of (out', f', l') \<Rightarrow>
            if f' \<noteq> 0 then linesFlush out' f' l' else out')
         = foldl (\<lambda>out (f, l). linesFlush out f l) out (lineRuns f l xs)"
  using assms
proof (induction xs arbitrary: out f l)
  case Nil
  then show ?case by simp
next
  case (Cons x xs)
  then show ?case by simp
qed

lemma lineRuns_expand:
  "f \<le> l \<Longrightarrow> concat (map (\<lambda>(f, l). [f .. l]) (lineRuns f l xs)) = [f .. l] @ xs"
proof (induction xs arbitrary: f l)
  case Nil
  then show ?case by simp
next
  case (Cons x xs)
  show ?case
  proof (cases "x = l + 1")
    case True
    with Cons.prems have "[f .. l + 1] = [f .. l] @ [l + 1]" by (simp add: upto_rec2)
    with Cons True show ?thesis by simp
  next
    case False
    with Cons show ?thesis by simp
  qed
qed

lemma lineRuns_nonempty: "lineRuns f l xs \<noteq> []"
  by (induction xs arbitrary: f l) auto

lemma lineRuns_bounds:
  "0 < f \<Longrightarrow> f \<le> l \<Longrightarrow> \<forall>x\<in>set xs. 0 < x \<Longrightarrow>
     \<forall>(f', l')\<in>set (lineRuns f l xs). 0 < f' \<and> f' \<le> l'"
proof (induction xs arbitrary: f l)
  case Nil
  then show ?case by simp
next
  case (Cons x xs)
  from Cons.prems have px: "0 < x" and pxs: "\<forall>y\<in>set xs. 0 < y" by auto
  show ?case
  proof (cases "x = l + 1")
    case True
    from Cons.prems have "0 < f" "f \<le> l + 1" by auto
    from Cons.IH[OF this pxs] True show ?thesis by simp
  next
    case False
    from Cons.IH[OF px _ pxs, of x] Cons.prems False show ?thesis by simp
  qed
qed

lemma linesFirstLast_props:
  assumes "0 < f" and "f \<le> l"
  shows "linesFirstLast f l \<noteq> []" and "CHR '','' \<notin> set (linesFirstLast f l)"
    and "parseRange (linesFirstLast f l) = [f .. l]"
    and "CHR ''-'' \<in> set (linesFirstLast f l) \<longleftrightarrow> f \<noteq> l"
proof -
  have l: "0 < l" using assms by simp
  note pf = cvtToStr_props[OF assms(1)] and pl = cvtToStr_props[OF l]
  show "linesFirstLast f l \<noteq> []" using assms pf pl by (simp add: linesFirstLast_def)
  show "CHR '','' \<notin> set (linesFirstLast f l)" using assms pf pl by (simp add: linesFirstLast_def)
  show "CHR ''-'' \<in> set (linesFirstLast f l) \<longleftrightarrow> f \<noteq> l"
    using assms pf pl by (simp add: linesFirstLast_def)
  show "parseRange (linesFirstLast f l) = [f .. l]"
  proof (cases "f = l")
    case True
    then show ?thesis using assms pf
      by (simp add: linesFirstLast_def parseRange_def splitOn_none)
  next
    case False
    have "splitOn CHR ''-'' (cvtToStr f @ CHR ''-'' # cvtToStr l) = [cvtToStr f, cvtToStr l]"
      using pf pl by (simp add: splitOn_append splitOn_none)
    then show ?thesis using False assms pf pl
      by (simp add: linesFirstLast_def parseRange_def)
  qed
qed

lemma flush_fold:
  assumes "out \<noteq> []"
  shows "foldl (\<lambda>out (f, l). linesFlush out f l) out rs
         = out @ concat (map (\<lambda>q. CHR '','' # q) (map (\<lambda>(f, l). linesFirstLast f l) rs))"
  using assms
proof (induction rs arbitrary: out)
  case Nil
  then show ?case by simp
next
  case (Cons r rs)
  obtain f l where r: "r = (f, l)" by (cases r)
  have ne: "linesFlush out f l \<noteq> []" using Cons.prems by (rule linesFlush_nonempty)
  have "linesFlush out f l = out @ CHR '','' # linesFirstLast f l"
    using Cons.prems by (simp add: linesFlush_def)
  with Cons.IH[OF ne] r show ?case by simp
qed

text \<open>The rendering of a non-empty list of positive lines, as the joined runs.\<close>

lemma linesRender_runs:
  assumes fin: "finite S" and pos: "\<forall>x\<in>S. 0 < x" and ne: "S \<noteq> {}"
  obtains x xs where "sorted_list_of_set S = x # xs"
    and "linesRender S = linesFirstLast (fst (hd (lineRuns x x xs))) (snd (hd (lineRuns x x xs)))
           @ concat (map (\<lambda>q. CHR '','' # q)
               (map (\<lambda>(f, l). linesFirstLast f l) (tl (lineRuns x x xs))))"
    and "lineRuns x x xs \<noteq> []"
    and "\<forall>(f', l')\<in>set (lineRuns x x xs). 0 < f' \<and> f' \<le> l'"
proof -
  from fin ne have "sorted_list_of_set S \<noteq> []" by simp
  then obtain x xs where xs: "sorted_list_of_set S = x # xs" by (cases "sorted_list_of_set S") auto
  from fin have set: "set (sorted_list_of_set S) = S" by simp
  with xs pos have px: "0 < x" and pxs: "\<forall>y\<in>set xs. 0 < y" by auto
  from pxs have nz: "\<forall>y\<in>set xs. y \<noteq> 0" by auto
  have rne: "lineRuns x x xs \<noteq> []" by (rule lineRuns_nonempty)
  then obtain r rs where rs: "lineRuns x x xs = r # rs" by (cases "lineRuns x x xs") auto
  obtain f l where r: "r = (f, l)" by (cases r)
  have b: "\<forall>(f', l')\<in>set (lineRuns x x xs). 0 < f' \<and> f' \<le> l'"
    using lineRuns_bounds[OF px _ pxs, of x] by simp
  with rs r have fl: "0 < f" "f \<le> l" by auto
  have "linesRender S = (case linesLoop xs ([], x, x) of (out', f', l') \<Rightarrow>
            if f' \<noteq> 0 then linesFlush out' f' l' else out')"
    using px by (simp add: linesRender_def xs)
  also have "\<dots> = foldl (\<lambda>out (f, l). linesFlush out f l) [] (lineRuns x x xs)"
    using px nz by (intro linesLoop_runs) auto
  also have "\<dots> = foldl (\<lambda>out (f, l). linesFlush out f l) (linesFirstLast f l) rs"
    by (simp add: rs r linesFlush_def)
  also have "\<dots> = linesFirstLast f l @ concat (map (\<lambda>q. CHR '','' # q)
               (map (\<lambda>(f, l). linesFirstLast f l) rs))"
    using linesFirstLast_props(1)[OF fl] by (rule flush_fold)
  finally have eq: "linesRender S = linesFirstLast (fst (hd (lineRuns x x xs))) (snd (hd (lineRuns x x xs)))
           @ concat (map (\<lambda>q. CHR '','' # q)
               (map (\<lambda>(f, l). linesFirstLast f l) (tl (lineRuns x x xs))))"
    by (simp add: rs r)
  show ?thesis by (rule that[OF xs eq rne b])
qed

lemma linesRender_pieces:
  assumes fin: "finite S" and pos: "\<forall>x\<in>S. 0 < x" and ne: "S \<noteq> {}"
  obtains x xs where "sorted_list_of_set S = x # xs"
    and "linesRender S \<noteq> []"
    and "splitOn CHR '','' (linesRender S) = map (\<lambda>(f, l). linesFirstLast f l) (lineRuns x x xs)"
    and "\<forall>(f', l')\<in>set (lineRuns x x xs). 0 < f' \<and> f' \<le> l'"
proof -
  from linesRender_runs[OF assms] obtain x xs where
    xs: "sorted_list_of_set S = x # xs"
    and eq: "linesRender S = linesFirstLast (fst (hd (lineRuns x x xs))) (snd (hd (lineRuns x x xs)))
           @ concat (map (\<lambda>q. CHR '','' # q)
               (map (\<lambda>(f, l). linesFirstLast f l) (tl (lineRuns x x xs))))"
    and rne: "lineRuns x x xs \<noteq> []"
    and b: "\<forall>(f', l')\<in>set (lineRuns x x xs). 0 < f' \<and> f' \<le> l'" by blast
  from rne obtain r rs where rs: "lineRuns x x xs = r # rs" by (cases "lineRuns x x xs") auto
  obtain f l where r: "r = (f, l)" by (cases r)
  from b rs r have fl: "0 < f" "f \<le> l" by auto
  have nocomma: "\<forall>q\<in>set (map (\<lambda>(f, l). linesFirstLast f l) rs). CHR '','' \<notin> set q"
    using b rs by (auto simp: linesFirstLast_props(2))
  have "splitOn CHR '','' (linesRender S)
        = linesFirstLast f l # map (\<lambda>(f, l). linesFirstLast f l) rs"
    unfolding eq rs r list.sel fst_conv snd_conv
    by (rule splitOn_joined[OF linesFirstLast_props(2)[OF fl] nocomma])
  then have sp: "splitOn CHR '','' (linesRender S)
                  = map (\<lambda>(f, l). linesFirstLast f l) (lineRuns x x xs)"
    by (simp add: rs r)
  have ne': "linesRender S \<noteq> []" unfolding eq rs r using linesFirstLast_props(1)[OF fl] by simp
  show ?thesis by (rule that[OF xs ne' sp b])
qed

lemma parseLines_linesRender:
  assumes fin: "finite S" and pos: "\<forall>x\<in>S. 0 < x"
  shows "parseLines (linesRender S) = sorted_list_of_set S"
proof (cases "S = {}")
  case True
  then show ?thesis by (simp add: linesRender_def parseLines_def)
next
  case False
  from linesRender_pieces[OF fin pos False] obtain x xs where
    xs: "sorted_list_of_set S = x # xs"
    and ne: "linesRender S \<noteq> []"
    and sp: "splitOn CHR '','' (linesRender S) = map (\<lambda>(f, l). linesFirstLast f l) (lineRuns x x xs)"
    and b: "\<forall>(f', l')\<in>set (lineRuns x x xs). 0 < f' \<and> f' \<le> l'" by blast
  have "map parseRange (map (\<lambda>(f, l). linesFirstLast f l) (lineRuns x x xs))
        = map (\<lambda>(f, l). [f .. l]) (lineRuns x x xs)"
    using b by (auto simp: linesFirstLast_props(3))
  moreover have "parseLines (linesRender S)
                 = concat (map parseRange (map (\<lambda>(f, l). linesFirstLast f l) (lineRuns x x xs)))"
    using ne by (simp only: parseLines_def sp if_False)
  ultimately have "parseLines (linesRender S) = concat (map (\<lambda>(f, l). [f .. l]) (lineRuns x x xs))"
    by (simp only:)
  also have "\<dots> = [x .. x] @ xs" by (rule lineRuns_expand) simp
  finally show ?thesis using xs by simp
qed

lemma hyphen_iff_range:
  assumes fin: "finite S" and pos: "\<forall>x\<in>S. 0 < x" and ne: "S \<noteq> {}"
  shows "\<forall>p\<in>set (splitOn CHR '','' (linesRender S)).
           (CHR ''-'' \<in> set p) = (1 < length (parseRange p))"
proof -
  from linesRender_pieces[OF fin pos ne] obtain x xs where
    sp: "splitOn CHR '','' (linesRender S) = map (\<lambda>(f, l). linesFirstLast f l) (lineRuns x x xs)"
    and b: "\<forall>(f', l')\<in>set (lineRuns x x xs). 0 < f' \<and> f' \<le> l'" by blast
  show ?thesis unfolding sp using b
    by (auto simp: linesFirstLast_props(3,4))
qed

lemma fold_insert_set: "fold insert xs A = set xs \<union> A"
  by (induction xs arbitrary: A) auto

section \<open>Properties of the traversal\<close>

lemma frame_refl: "frame st st" by (simp add: frame_def)

lemma frame_trans: "frame a b \<Longrightarrow> frame b c \<Longrightarrow> frame a c"
  by (simp add: frame_def)

lemma newCoverInc_state:
  "newCoverInc opt fl hier pp cm lc off tn st = Inr (r, st') \<Longrightarrow>
     \<exists>new. st' = st\<lparr> m_modStmts := m_modStmts st @ new \<rparr>"
  by (auto simp: newCoverInc_def addModStmt_def Let_def split: option.splits if_splits)

lemma newCoverInc_error:
  "newCoverInc opt fl hier pp cm lc off tn st = Inl e \<Longrightarrow> m_modp st = None"
  by (auto simp: newCoverInc_def Let_def split: option.splits if_splits)

lemma toggleVarBottom_state:
  "toggleVarBottom opt ab fl v st = Inr st' \<Longrightarrow>
     \<exists>new. st' = st\<lparr> m_modStmts := m_modStmts st @ new \<rparr>"
  by (auto simp: toggleVarBottom_def addModStmt_def split: sum.splits dest!: newCoverInc_state)

lemma toggleVarBottom_error:
  "toggleVarBottom opt ab fl v st = Inl e \<Longrightarrow> m_modp st = None"
  by (auto simp: toggleVarBottom_def split: sum.splits dest: newCoverInc_error)

lemma toggleBits_state:
  "toggleBits opt lo idxs ab fl v st = Inr st' \<Longrightarrow>
     \<exists>new. st' = st\<lparr> m_modStmts := m_modStmts st @ new \<rparr>"
proof (induction idxs arbitrary: st)
  case Nil
  then show ?case by (auto intro: exI[of _ "[]"])
next
  case (Cons i idxs)
  then show ?case
    by (fastforce simp: Let_def split: sum.splits dest!: toggleVarBottom_state)
qed

lemma toggleBits_error:
  "toggleBits opt lo idxs ab fl v st = Inl e \<Longrightarrow> m_modp st = None"
proof (induction idxs arbitrary: st)
  case Nil
  then show ?case by simp
next
  case (Cons i idxs)
  then show ?case
    by (fastforce simp: Let_def split: sum.splits
          dest!: toggleVarBottom_state dest: toggleVarBottom_error)
qed

lemma toggleOk_Inr_same: "toggleOk st (Inr st)"
  by (auto simp: toggleOk_def intro: exI[of _ "[]"])

lemma toggleOk_bind:
  assumes "toggleOk st m" and "\<And>st1. m = Inr st1 \<Longrightarrow> toggleOk st1 (f st1)"
  shows "toggleOk st (case m of Inl e \<Rightarrow> Inl e | Inr st1 \<Rightarrow> f st1)"
proof (cases m)
  case (Inl e)
  then show ?thesis using assms(1) by (simp add: toggleOk_def)
next
  case (Inr st1)
  from assms(1) Inr obtain new where st1: "st1 = st\<lparr> m_modStmts := m_modStmts st @ new \<rparr>"
    by (auto simp: toggleOk_def)
  from assms(2)[OF Inr] have ok: "toggleOk st1 (f st1)" .
  show ?thesis
  proof (cases "f st1")
    case (Inl e)
    then show ?thesis using ok Inr st1 by (simp add: toggleOk_def)
  next
    case r: (Inr st2)
    from ok r obtain new2 where "st2 = st1\<lparr> m_modStmts := m_modStmts st1 @ new2 \<rparr>"
      by (auto simp: toggleOk_def)
    with st1 have "st2 = st\<lparr> m_modStmts := m_modStmts st @ (new @ new2) \<rparr>" by simp
    then show ?thesis using Inr r unfolding toggleOk_def by (simp only: sum.case) blast
  qed
qed

lemma toggleOk_toggleVarBottom: "toggleOk st (toggleVarBottom opt ab fl v st)"
  by (cases "toggleVarBottom opt ab fl v st")
     (auto simp: toggleOk_def dest: toggleVarBottom_error toggleVarBottom_state)

lemma toggleOk_toggleBits: "toggleOk st (toggleBits opt lo idxs ab fl v st)"
  by (cases "toggleBits opt lo idxs ab fl v st")
     (auto simp: toggleOk_def dest: toggleBits_error toggleBits_state)

lemma toggleOk_toggleVarRecurse:
  "toggleOk st (toggleVarRecurse opt d depth ab fl v chg st)"
  "toggleOk st (toggleUnpackElems opt lo d idxs depth ab fl v chg st)"
  "toggleOk st (togglePackElems opt lo d idxs depth ab fl v chg st)"
  "toggleOk st (togglePackedMembers opt ms depth ab fl v chg st)"
  "toggleOk st (toggleUnpackedMembers opt ms depth ab fl v chg st)"
proof (induction opt d depth ab fl v chg st and opt lo d idxs depth ab fl v chg st
         and opt lo d idxs depth ab fl v chg st and opt ms depth ab fl v chg st
         and opt ms depth ab fl v chg st
       rule: toggleVarRecurse_toggleUnpackElems_togglePackElems_togglePackedMembers_toggleUnpackedMembers.induct)
  case (1 opt w ranged lo hi depth aboveEnt varfl varp chgVarp st)
  then show ?case by (simp add: toggleOk_toggleBits toggleOk_toggleVarBottom)
next
  case (5 opt w membersp depth aboveEnt varfl varp chgVarp st)
  then show ?case by (cases membersp) (simp_all add: toggleOk_Inr_same Let_def)
next
  case (6 opt w prettyTypeName depth aboveEnt varfl varp chgVarp st)
  then show ?case by (simp add: toggleOk_def)
next
  case (8 opt lo subDTypep index_docs idxs depth aboveEnt varfl varp chgVarp st)
  show ?case
    apply (simp only: toggleUnpackElems.simps Let_def)
    apply (rule toggleOk_bind)
     apply (rule 8(1)[OF refl refl])
    apply (erule 8(2)[OF refl refl])
    done
next
  case (10 opt lo subDTypep index_docs idxs depth aboveEnt varfl varp chgVarp st)
  show ?case
    apply (simp only: togglePackElems.simps Let_def)
    apply (rule toggleOk_bind)
     apply (rule 10(1)[OF refl refl])
    apply (erule 10(2)[OF refl refl])
    done
next
  case (12 opt name lsb subtypep nextp depth aboveEnt varfl varp chgVarp st)
  show ?case
    apply (simp only: togglePackedMembers.simps Let_def)
    apply (rule toggleOk_bind)
     apply (rule 12(1)[OF refl refl])
    apply (erule 12(2)[OF refl refl])
    done
next
  case (14 opt name lsb subtypep nextp depth aboveEnt varfl varp chgVarp st)
  show ?case
    apply (simp only: toggleUnpackedMembers.simps Let_def)
    apply (rule toggleOk_bind)
     apply (rule 14(1)[OF refl refl refl])
    apply (erule 14(2)[OF refl refl refl])
    done
qed (simp_all add: toggleOk_Inr_same)

lemma visitOk_simps [simp]:
  "visitOk st (Inl e) = (m_modp st \<noteq> None \<longrightarrow> toggleFatal e)"
  "visitOk st (Inr (x, st')) = frame st st'"
  by (simp_all add: visitOk_def)

lemma visitOk_bind:
  assumes "visitOk st m" and "\<And>x st1. m = Inr (x, st1) \<Longrightarrow> visitOk st1 (f x st1)"
  shows "visitOk st (case m of Inl e \<Rightarrow> Inl e | Inr (x, st1) \<Rightarrow> f x st1)"
proof (cases m)
  case (Inl e)
  then show ?thesis using assms(1) by simp
next
  case (Inr p)
  obtain x st1 where p: "p = (x, st1)" by (cases p)
  from assms(1) Inr p have f1: "frame st st1" by simp
  from assms(2)[of x st1] Inr p have ok: "visitOk st1 (f x st1)" by simp
  have "visitOk st (f x st1)"
  proof (cases "f x st1")
    case (Inl e)
    then show ?thesis using ok f1 by (simp add: frame_def)
  next
    case r: (Inr q)
    obtain y st2 where "q = (y, st2)" by (cases q)
    then show ?thesis using ok f1 r by (auto intro: frame_trans)
  qed
  with Inr p show ?thesis by simp
qed

lemma lineCoverInc_state:
  "lineCoverInc opt fl pp ty cs off st = Inr (r, st') \<Longrightarrow>
     m_modp st' = m_modp st \<and> m_state st' = m_state st \<and> m_inToggleOff st' = m_inToggleOff st
     \<and> m_beginHier st' = m_beginHier st \<and> m_handleLines st' = m_handleLines st
     \<and> m_nextHandle st' = m_nextHandle st"
  by (auto simp: lineCoverInc_def traceNameForLine_def Let_def dest!: newCoverInc_state)

lemma lineCoverInc_error:
  "lineCoverInc opt fl pp ty cs off st = Inl e \<Longrightarrow> m_modp st = None"
  by (auto simp: lineCoverInc_def traceNameForLine_def Let_def dest!: newCoverInc_error)

lemma frame_lineTrack: "frame st (lineTrack opt fl st)"
  by (simp add: frame_def lineTrack_def)

lemma frame_lineCoverInc: "lineCoverInc opt fl pp ty cs off st = Inr (r, st') \<Longrightarrow> frame st st'"
  by (auto simp: frame_def dest!: lineCoverInc_state)

lemma frame_newCoverInc:
  "newCoverInc opt fl hier pp cm lc off tn st = Inr (r, st') \<Longrightarrow> frame st st'"
  by (auto simp: frame_def dest!: newCoverInc_state)

lemma visitOk_lineCoverInc: "visitOk st (lineCoverInc opt fl pp ty cs off st)"
proof (cases "lineCoverInc opt fl pp ty cs off st")
  case (Inl e)
  then show ?thesis by (auto dest: lineCoverInc_error)
next
  case (Inr p)
  then show ?thesis by (cases p) (auto dest: frame_lineCoverInc)
qed

lemma procAddStmtsp_ok:
  "isProcKind (kind n) \<Longrightarrow> \<exists>n'. procAddStmtsp n newp = Inr n'"
  by (cases "(n, newp)" rule: procAddStmtsp.cases) auto

lemma visitOk_procCover:
  assumes "isProcKind (kind n)"
  shows "visitOk st (procCover opt n st)"
proof (cases "lineCoverageOn opt (m_state st) (nodeFileline n)")
  case False
  then show ?thesis by (simp add: procCover_def frame_refl)
next
  case True
  let ?st1 = "lineTrack opt (nodeFileline n) st"
  show ?thesis
  proof (cases "lineCoverInc opt (nodeFileline n) ''v_line'' ''block'' (m_state ?st1) 0 ?st1")
    case (Inl e)
    then have "m_modp ?st1 = None" by (rule lineCoverInc_error)
    then have "m_modp st = None" by (simp add: lineTrack_def split: if_splits)
    then show ?thesis using True Inl by (simp add: procCover_def Let_def)
  next
    case (Inr p)
    obtain newp st2 where p: "p = (newp, st2)" by (cases p)
    from Inr p have "frame ?st1 st2" by (auto dest: frame_lineCoverInc)
    then have f: "frame st st2" by (rule frame_trans[OF frame_lineTrack])
    from procAddStmtsp_ok[OF assms] obtain n' where "procAddStmtsp n newp = Inr n'" by blast
    then show ?thesis using True Inr p f by (simp add: procCover_def Let_def)
  qed
qed

lemma ifCover_frame:
  "ifCover opt fl a b c s1 s2 t e st = Inr (t', e', st') \<Longrightarrow> frame st st'"
  by (auto simp: ifCover_def split: if_splits sum.splits
        dest!: frame_lineCoverInc intro: frame_trans frame_refl)

lemma ifCover_error:
  "ifCover opt fl a b c s1 s2 t e st = Inl err \<Longrightarrow> m_modp st = None"
  by (auto simp: ifCover_def split: if_splits sum.splits
        dest!: lineCoverInc_error dest!: lineCoverInc_state)

lemma visitOk_caseItemCover: "visitOk st (caseItemCover opt fl ss st)"
proof (cases "lineCoverageOn opt (m_state st) fl")
  case False
  then show ?thesis by (simp add: caseItemCover_def frame_refl)
next
  case True
  let ?st1 = "lineTrack opt fl st"
  have "visitOk ?st1 (lineCoverInc opt fl ''v_line'' ''case'' (m_state ?st1) 0 ?st1)"
    by (rule visitOk_lineCoverInc)
  then show ?thesis using True frame_lineTrack[of st opt fl]
    by (auto simp: caseItemCover_def Let_def frame_def split: sum.splits)
qed

lemma visitOk_coverCover: "visitOk st (coverCover opt fl ss st)"
proof (cases "ss = [] \<and> coverageUser opt")
  case False
  then show ?thesis by (auto simp: coverCover_def frame_refl)
next
  case True
  let ?st1 = "lineTrack opt fl st"
  show ?thesis
  proof (cases "newCoverInc opt fl (m_beginHier ?st1) ''v_user'' ''cover''
                     (linesCov ?st1 (m_state ?st1)) 0
                     (m_beginHier ?st1 @ ''_vlCoverageUserTrace'') ?st1")
    case (Inl e)
    then have "m_modp ?st1 = None" by (rule newCoverInc_error)
    then have "m_modp st = None" by (simp add: lineTrack_def split: if_splits)
    then show ?thesis using True Inl by (simp add: coverCover_def Let_def)
  next
    case (Inr p)
    obtain newp st2 where p: "p = (newp, st2)" by (cases p)
    from Inr p have "frame ?st1 st2" by (auto dest: frame_newCoverInc)
    then have f: "frame st st2" by (rule frame_trans[OF frame_lineTrack])
    then show ?thesis using True Inr p by (simp add: coverCover_def Let_def)
  qed
qed

lemma toggleVar_ok:
  "toggleVar opt fl v st = Inr st' \<Longrightarrow> frame st st'"
  "toggleVar opt fl v st = Inl e \<Longrightarrow> toggleFatal e"
proof -
  let ?go = "m_modp st \<noteq> None \<and> \<not> m_inToggleOff st \<and> \<not> m_inModOff (m_state st)
               \<and> coverageOn fl \<and> coverageToggle opt \<and> varIgnoreToggle opt v = None"
  have "(toggleVar opt fl v st = Inr st' \<longrightarrow> frame st st')
        \<and> (toggleVar opt fl v st = Inl e \<longrightarrow> toggleFatal e)"
  proof (cases ?go)
    case False
    then show ?thesis by (auto simp: toggleVar_def frame_refl split: option.splits)
  next
    case True
    define chg where "chg = v\<lparr> v_name := ''__Vtogcov__'' @ v_shortName v,
        v_shortName := ''__Vtogcov__'' @ v_shortName v,
        v_prettyName := ''__Vtogcov__'' @ v_shortName v, v_varType := MODULETEMP,
        v_isToggleCoverable := False, v_trace := False \<rparr>"
    define st1 where "st1 = addModStmt (Node (KVar chg) (fl\<lparr> warnOffUnusedSignal := True \<rparr>)
                               [] [] [] []) st"
    define newvec where "newvec = \<lparr> m_comment = [], m_varRefp = VarRef v READ,
                               m_chgRefp = VarRef chg WRITE \<rparr>"
    have eq: "toggleVar opt fl v st = toggleVarRecurse opt (v_dtype v) 0 newvec fl v chg st1"
      using True by (simp add: toggleVar_def Let_def chg_def st1_def newvec_def)
    have ok: "toggleOk st1 (toggleVarRecurse opt (v_dtype v) 0 newvec fl v chg st1)"
      by (rule toggleOk_toggleVarRecurse)
    have m: "m_modp st1 \<noteq> None" using True by (simp add: st1_def addModStmt_def)
    show ?thesis using ok m unfolding eq
      by (cases "toggleVarRecurse opt (v_dtype v) 0 newvec fl v chg st1")
         (auto simp: toggleOk_def frame_def st1_def addModStmt_def)
  qed
  then show "toggleVar opt fl v st = Inr st' \<Longrightarrow> frame st st'"
    and "toggleVar opt fl v st = Inl e \<Longrightarrow> toggleFatal e" by blast+
qed

lemma iterateChildren_kind:
  "iterateChildren opt n st = Inr (n', st') \<Longrightarrow> kind n' = kind n \<and> nodeFileline n' = nodeFileline n"
  by (cases n) (auto split: sum.splits)

lemma visitOk_iterateProcedure:
  assumes IH: "visitOk (createHandle (nodeFileline n) (st\<lparr> m_inToggleOff := True \<rparr>))
                 (iterateChildren opt n (createHandle (nodeFileline n) (st\<lparr> m_inToggleOff := True \<rparr>)))"
    and k: "isProcKind (kind n)"
  shows "visitOk st (iterateProcedure opt n st)"
proof -
  let ?s1 = "createHandle (nodeFileline n) (st\<lparr> m_inToggleOff := True \<rparr>)"
  have m1: "m_modp ?s1 = m_modp st" by (simp add: createHandle_def)
  show ?thesis
  proof (cases "iterateChildren opt n ?s1")
    case (Inl e)
    then show ?thesis using IH m1 by (simp add: Let_def)
  next
    case (Inr p)
    obtain n' st2 where p: "p = (n', st2)" by (cases p)
    from IH Inr p have f1: "frame ?s1 st2" by simp
    from iterateChildren_kind[OF Inr[unfolded p]] k have k': "isProcKind (kind n')" by simp
    have ok: "visitOk st2 (procCover opt n' st2)" by (rule visitOk_procCover[OF k'])
    show ?thesis
    proof (cases "procCover opt n' st2")
      case (Inl e)
      then show ?thesis using Inr p ok f1 m1 by (simp add: Let_def frame_def)
    next
      case r: (Inr q)
      obtain n'' st3 where q: "q = (n'', st3)" by (cases q)
      from ok r q have f2: "frame st2 st3" by simp
      from f1 f2 have "frame st (st3\<lparr> m_state := m_state st, m_inToggleOff := m_inToggleOff st \<rparr>)"
        by (simp add: frame_def createHandle_def)
      then show ?thesis using Inr p r q by (simp add: Let_def)
    qed
  qed
qed

lemma visitOk_Module:
  assumes IH: "\<And>x xa xb xaa xab.
          \<lbrakk>x = m_modp st; xa = createHandle fl st;
           xb = xa\<lparr>m_modp := Some \<lparr>mod_prettyName = name, mod_isClass = isClass\<rparr>,
                m_modStmts := []\<rparr>;
           xaa = xb\<lparr>m_state := (m_state xb)\<lparr>m_inModOff := isTop\<rparr>\<rparr>;
           xab = (if x = None
            then xaa\<lparr>m_varnames := \<lambda>_. 0, m_handleLines := \<lambda>_. {}\<rparr>
            else xaa)\<rbrakk>
          \<Longrightarrow> visitOk xab (iterateChildren opt (Node (KModule name isTop isClass) fl o1 o2 o3 o4) xab)"
  shows "visitOk st (visit opt (Node (KModule name isTop isClass) fl o1 o2 o3 o4) st)"
proof -
  define s3 where "s3 = (createHandle fl st)\<lparr> m_modp := Some \<lparr> mod_prettyName = name, mod_isClass = isClass \<rparr>,
                      m_modStmts := [] \<rparr>"
  define s3' where "s3' = s3\<lparr> m_state := (m_state s3)\<lparr> m_inModOff := isTop \<rparr> \<rparr>"
  define s4 where "s4 = (if m_modp st = None
                 then s3'\<lparr> m_varnames := (\<lambda>_. 0), m_handleLines := (\<lambda>_. {}) \<rparr>
                 else s3')"
  have m4: "m_modp s4 \<noteq> None" by (simp add: s4_def s3'_def s3_def)
  have ok4: "visitOk s4 (iterateChildren opt (Node (KModule name isTop isClass) fl o1 o2 o3 o4) s4)"
    unfolding s4_def s3'_def s3_def by (rule IH[OF refl refl refl refl refl])
  have eq: "visit opt (Node (KModule name isTop isClass) fl o1 o2 o3 o4) st =
     (case iterateChildren opt (Node (KModule name isTop isClass) fl o1 o2 o3 o4) s4 of
           Inl e \<Rightarrow> Inl e
         | Inr (Node k' fl' o1' o2' o3' o4', st5) \<Rightarrow>
             Inr ([Node k' fl' o1' (o2' @ m_modStmts st5) o3' o4'],
                  st5\<lparr> m_modp := m_modp st, m_state := m_state st,
                       m_modStmts := m_modStmts st \<rparr>))"
    by (simp add: Let_def s4_def s3'_def s3_def)
  have i4: "m_inToggleOff s4 = m_inToggleOff st \<and> m_beginHier s4 = m_beginHier st"
    by (simp add: s4_def s3'_def s3_def createHandle_def)
  show ?thesis
  proof (cases "iterateChildren opt (Node (KModule name isTop isClass) fl o1 o2 o3 o4) s4")
    case (Inl e)
    then show ?thesis using ok4 m4 unfolding eq by simp
  next
    case (Inr p)
    obtain n' st5 where p: "p = (n', st5)" by (cases p)
    from ok4 Inr p have f: "frame s4 st5" by simp
    with i4 have "frame st (st5\<lparr> m_modp := m_modp st, m_state := m_state st,
                       m_modStmts := m_modStmts st \<rparr>)"
      by (simp add: frame_def)
    then show ?thesis using Inr p unfolding eq by (cases n') simp
  qed
qed

lemma visitOk_If:
  assumes IH1: "m_on (m_state st) \<Longrightarrow>
                  visitOk (createHandle fl st) (iterateAndNextNull opt thensp (createHandle fl st))"
    and IH2: "\<And>thensp' st1. m_on (m_state st) \<Longrightarrow>
                iterateAndNextNull opt thensp (createHandle fl st) = Inr (thensp', st1) \<Longrightarrow>
                visitOk (createHandle fl ((lineTrack opt fl st1)\<lparr> m_state := m_state st \<rparr>))
                  (iterateAndNextNull opt (markElsif thensp elsesp)
                     (createHandle fl ((lineTrack opt fl st1)\<lparr> m_state := m_state st \<rparr>)))"
  shows "visitOk st (visit opt (Node (KIf user1) fl condp thensp elsesp o4) st)"
proof (cases "m_on (m_state st)")
  case False
  then show ?thesis by (simp add: frame_refl)
next
  case True
  show ?thesis
  proof (cases "iterateAndNextNull opt thensp (createHandle fl st)")
    case (Inl e)
    then show ?thesis using IH1[OF True] True by (simp add: Let_def createHandle_def)
  next
    case (Inr p)
    obtain thensp' st1 where p: "p = (thensp', st1)" by (cases p)
    from IH1[OF True] Inr p have f1: "frame (createHandle fl st) st1" by simp
    let ?s2 = "createHandle fl ((lineTrack opt fl st1)\<lparr> m_state := m_state st \<rparr>)"
    have m2: "m_modp ?s2 = m_modp st" using f1 by (simp add: frame_def createHandle_def lineTrack_def)
    note ok2 = IH2[OF True Inr[unfolded p]]
    show ?thesis
    proof (cases "iterateAndNextNull opt (markElsif thensp elsesp) ?s2")
      case (Inl e)
      then show ?thesis using True Inr p ok2 m2 by (simp add: Let_def)
    next
      case r: (Inr q)
      obtain elsesp' st3 where q: "q = (elsesp', st3)" by (cases q)
      from ok2 r q have f2: "frame ?s2 st3" by simp
      let ?s3 = "st3\<lparr> m_state := m_state st \<rparr>"
      have o3: "m_modp ?s3 = m_modp st \<and> m_inToggleOff ?s3 = m_inToggleOff st
                 \<and> m_beginHier ?s3 = m_beginHier st"
        using f1 f2 by (simp add: frame_def createHandle_def lineTrack_def)
      show ?thesis
      proof (cases "ifCover opt fl (\<not> user1 \<and> isElsif thensp elsesp) (user1 \<and> isElsif thensp elsesp)
                     (user1 \<and> \<not> isElsif thensp elsesp \<and> elsesp \<noteq> [])
                     (m_state (lineTrack opt fl st1)) (m_state st3) thensp' elsesp' ?s3")
        case (Inl e)
        from ifCover_error[OF this] o3 have "m_modp st = None" by simp
        then show ?thesis using True Inr p r q Inl by (simp add: Let_def)
      next
        case c: (Inr w)
        obtain t2 e2 st4 where w: "w = (t2, e2, st4)" by (cases w)
        from ifCover_frame[OF c[unfolded w]] have "frame ?s3 st4" .
        with o3 have "frame st (st4\<lparr> m_state := m_state st \<rparr>)" by (simp add: frame_def)
        then show ?thesis using True Inr p r q c w by (simp add: Let_def)
      qed
    qed
  qed
qed

lemma visitOk_CaseItem:
  assumes "lineCoverageOn opt (m_state st) fl \<Longrightarrow>
             visitOk (createHandle fl st) (iterateAndNextNull opt stmtsp (createHandle fl st))"
  shows "visitOk st (visit opt (Node KCaseItem fl condsp stmtsp o3 o4) st)"
proof (cases "lineCoverageOn opt (m_state st) fl")
  case False
  then show ?thesis by (simp add: frame_refl)
next
  case True
  show ?thesis
  proof (cases "iterateAndNextNull opt stmtsp (createHandle fl st)")
    case (Inl e)
    then show ?thesis using True assms[OF True] by (simp add: createHandle_def)
  next
    case (Inr p)
    obtain ss st1 where p: "p = (ss, st1)" by (cases p)
    from assms[OF True] Inr p have f1: "frame (createHandle fl st) st1" by simp
    have ok: "visitOk st1 (caseItemCover opt fl ss st1)" by (rule visitOk_caseItemCover)
    show ?thesis
    proof (cases "caseItemCover opt fl ss st1")
      case (Inl e)
      then show ?thesis using True Inr p ok f1 by (simp add: frame_def createHandle_def)
    next
      case r: (Inr q)
      obtain ss2 st2 where q: "q = (ss2, st2)" by (cases q)
      from ok r q have f2: "frame st1 st2" by simp
      from f1 f2 have "frame st (st2\<lparr> m_state := m_state st \<rparr>)"
        by (simp add: frame_def createHandle_def)
      then show ?thesis using True Inr p r q by simp
    qed
  qed
qed

lemma visitOk_Cover:
  assumes IH: "visitOk (createHandle fl (st\<lparr> m_state := (m_state st)\<lparr> m_on := True \<rparr> \<rparr>))
                 (iterateChildren opt (Node KCover fl o1 o2 coverincsp o4)
                    (createHandle fl (st\<lparr> m_state := (m_state st)\<lparr> m_on := True \<rparr> \<rparr>)))"
  shows "visitOk st (visit opt (Node KCover fl o1 o2 coverincsp o4) st)"
proof -
  let ?s1 = "createHandle fl (st\<lparr> m_state := (m_state st)\<lparr> m_on := True \<rparr> \<rparr>)"
  have m1: "m_modp ?s1 = m_modp st" by (simp add: createHandle_def)
  show ?thesis
  proof (cases "iterateChildren opt (Node KCover fl o1 o2 coverincsp o4) ?s1")
    case (Inl e)
    then show ?thesis using IH m1 by (simp add: Let_def)
  next
    case (Inr p)
    obtain n' st2 where p: "p = (n', st2)" by (cases p)
    obtain k' fl' o1' o2' ci' o4' where n': "n' = Node k' fl' o1' o2' ci' o4'" by (cases n')
    from IH Inr p have f1: "frame ?s1 st2" by simp
    have ok: "visitOk st2 (coverCover opt fl ci' st2)" by (rule visitOk_coverCover)
    show ?thesis
    proof (cases "coverCover opt fl ci' st2")
      case (Inl e)
      then show ?thesis using Inr p n' ok f1 m1 by (simp add: Let_def frame_def)
    next
      case r: (Inr q)
      obtain ci2 st3 where q: "q = (ci2, st3)" by (cases q)
      from ok r q have f2: "frame st2 st3" by simp
      from f1 f2 have "frame st (st3\<lparr> m_state := m_state st \<rparr>)"
        by (simp add: frame_def createHandle_def)
      then show ?thesis using Inr p n' r q by (simp add: Let_def)
    qed
  qed
qed

lemma visitOk_Begin:
  assumes IH: "\<And>x xa.
          \<lbrakk>x = st\<lparr>m_inToggleOff := True\<rparr>;
           xa = (if name \<noteq> []
            then x\<lparr>m_beginHier :=
                     m_beginHier x @ (if m_beginHier x \<noteq> [] then ''.'' else []) @ name\<rparr>
            else x)\<rbrakk>
          \<Longrightarrow> visitOk xa (iterateChildren opt (Node (KBegin name) fl o1 o2 o3 o4) xa)"
  shows "visitOk st (visit opt (Node (KBegin name) fl o1 o2 o3 o4) st)"
proof -
  define s1 where "s1 = st\<lparr> m_inToggleOff := True \<rparr>"
  define s2 where "s2 = (if name \<noteq> []
                 then s1\<lparr> m_beginHier := m_beginHier s1
                                @ (if m_beginHier s1 \<noteq> [] then ''.'' else []) @ name \<rparr>
                 else s1)"
  have eq: "visit opt (Node (KBegin name) fl o1 o2 o3 o4) st =
      (case iterateChildren opt (Node (KBegin name) fl o1 o2 o3 o4) s2 of
           Inl e \<Rightarrow> Inl e
         | Inr (nodep', st3) \<Rightarrow>
             Inr ([nodep'], (lineTrack opt fl st3)\<lparr> m_beginHier := m_beginHier st,
                                                    m_inToggleOff := m_inToggleOff st \<rparr>))"
    by (simp add: Let_def s2_def s1_def del: iterateChildren.simps)
  have m2: "m_modp s2 = m_modp st" "m_state s2 = m_state st" by (simp_all add: s2_def s1_def)
  have ok2: "visitOk s2 (iterateChildren opt (Node (KBegin name) fl o1 o2 o3 o4) s2)"
    unfolding s2_def s1_def by (rule IH[OF refl refl])
  show ?thesis
  proof (cases "iterateChildren opt (Node (KBegin name) fl o1 o2 o3 o4) s2")
    case (Inl e)
    then show ?thesis using ok2 m2 unfolding eq by simp
  next
    case (Inr p)
    obtain n' st3 where p: "p = (n', st3)" by (cases p)
    from ok2 Inr p have f: "frame s2 st3" by simp
    with m2 have "frame st ((lineTrack opt fl st3)\<lparr> m_beginHier := m_beginHier st,
                                                    m_inToggleOff := m_inToggleOff st \<rparr>)"
      by (simp add: frame_def lineTrack_def s2_def s1_def split: if_splits)
    then show ?thesis using Inr p unfolding eq by simp
  qed
qed

lemma visitOk_generic:
  assumes "visitOk st (iterateChildren opt n st)"
  shows "visitOk st (case iterateChildren opt n st of
        Inl e \<Rightarrow> Inl e
      | Inr (nodep', st1) \<Rightarrow> Inr ([nodep'], lineTrack opt fl st1))"
  by (rule visitOk_bind[OF assms]) (simp add: frame_lineTrack)

lemma visitOk_result:
  assumes "visitOk st (m :: error + (node \<times> vstate))"
  shows "visitOk st (case m of Inl e \<Rightarrow> Inl e | Inr (nodep', st1) \<Rightarrow> Inr ([nodep'], st1))"
  by (rule visitOk_bind[OF assms]) (simp add: frame_refl)

lemma visit_visitOk:
  "visitOk st (visit opt n st)"
  "visitOk st (iterateChildren opt n st)"
  "isProcKind (kind n) \<longrightarrow> visitOk st (iterateProcedure opt n st)"
  "visitOk st (iterateAndNextNull opt ns st)"
proof (induction opt n st and opt n st and opt n st and opt ns st
       rule: visit_iterateChildren_iterateProcedure_iterateAndNextNull.induct)
  case (1 opt st)
  then show ?case by (simp add: frame_refl)
next
  case (2 opt nodep nextp st)
  show ?case
    apply (simp only: iterateAndNextNull.simps)
    apply (rule visitOk_bind[OF 2(1)])
    apply (rule visitOk_bind)
     apply (erule 2(2)[OF _ refl])
    apply (simp add: frame_refl)
    done
next
  case (3 opt k fl o1 o2 o3 o4 st)
  show ?case
    apply (simp only: iterateChildren.simps)
    apply (rule visitOk_bind[OF 3(1)])
    apply (rule visitOk_bind)
     apply (erule 3(2)[OF _ refl])
    apply (rule visitOk_bind)
     apply (erule 3(3)[OF _ refl], assumption, rule refl)
    apply (rule visitOk_bind)
     apply (erule 3(4)[OF _ refl], assumption, rule refl, assumption, rule refl)
    apply (simp add: frame_refl)
    done
next
  case (4 opt nodep st)
  show ?case by (rule impI, rule visitOk_iterateProcedure[OF 4[OF refl]])
next
  case (5 opt name isTop isClass fl o1 o2 o3 o4 st)
  show ?case by (rule visitOk_Module) (rule 5; assumption)
next
  case (6 opt fl o1 o2 o3 o4 st)
  then show ?case by (simp only: visit.simps) (rule visitOk_result, simp)
next
  case (7 opt fl o1 o2 o3 o4 st)
  then show ?case by (simp only: visit.simps) (rule visitOk_result, simp)
next
  case (8 opt dpiImport fl o1 o2 o3 o4 st)
  show ?case
  proof (cases dpiImport)
    case True
    then show ?thesis by (simp add: frame_refl)
  next
    case False
    from 8[OF False] have "visitOk st (iterateProcedure opt (Node (KFTask dpiImport) fl o1 o2 o3 o4) st)"
      by simp
    then show ?thesis using False by (simp only: visit.simps if_True simp_thms) (rule visitOk_result)
  qed
next
  case (9 opt v fl o1 o2 o3 o4 st)
  show ?case
    apply (simp only: visit.simps)
    apply (rule visitOk_bind[OF 9])
    apply (auto split: sum.splits dest: toggleVar_ok)
    done
next
  case (10 opt user1 fl condp thensp elsesp o4 st)
  show ?case
    apply (rule visitOk_If)
     apply (erule 10(1)[OF _ refl refl refl refl refl refl])
    apply (erule 10(2)[OF _ refl refl refl refl refl refl _ refl refl refl], assumption)
    done
next
  case (11 opt fl condsp stmtsp o3 o4 st)
  show ?case by (rule visitOk_CaseItem) (rule 11)
next
  case (12 opt fl o1 o2 coverincsp o4 st)
  show ?case by (rule visitOk_Cover) (rule 12[OF refl])
next
  case (13 opt fl o1 o2 o3 o4 st)
  then show ?case by (simp add: frame_def)
next
  case (14 opt fl o1 o2 o3 o4 st)
  then show ?case by (simp add: frame_def)
next
  case (15 opt fl o1 o2 o3 o4 st)
  show ?case
  proof (cases "m_on (m_state st)")
    case True
    show ?thesis
      by (simp only: visit.simps True if_True) (rule visitOk_generic[OF 15[OF True]])
  next
    case False
    then show ?thesis by (simp add: frame_lineTrack)
  qed
next
  case (16 opt name fl o1 o2 o3 o4 st)
  show ?case by (rule visitOk_Begin) (rule 16; assumption)
qed ((simp only: visit.simps)?, rule visitOk_generic, assumption)+

lemma visit_frame: "visit opt n st = Inr (r, st') \<Longrightarrow> frame st st'"
  using visit_visitOk(1)[of st opt n] by simp

lemma iterateAndNextNull_frame: "iterateAndNextNull opt ns st = Inr (r, st') \<Longrightarrow> frame st st'"
  using visit_visitOk(4)[of st opt ns] by simp

lemma visit_error: "m_modp st \<noteq> None \<Longrightarrow> visit opt n st = Inl e \<Longrightarrow> toggleFatal e"
  using visit_visitOk(1)[of st opt n] by simp

lemma iterateAndNextNull_error:
  "m_modp st \<noteq> None \<Longrightarrow> iterateAndNextNull opt ns st = Inl e \<Longrightarrow> toggleFatal e"
  using visit_visitOk(4)[of st opt ns] by simp

lemma visit_Module_error:
  assumes "visit opt (Node (KModule name isTop isClass) fl o1 o2 o3 o4) st = Inl e"
  shows "toggleFatal e"
proof -
  define s3 where "s3 = (createHandle fl st)\<lparr> m_modp := Some \<lparr> mod_prettyName = name, mod_isClass = isClass \<rparr>,
                      m_modStmts := [] \<rparr>"
  define s3' where "s3' = s3\<lparr> m_state := (m_state s3)\<lparr> m_inModOff := isTop \<rparr> \<rparr>"
  define s4 where "s4 = (if m_modp st = None
                 then s3'\<lparr> m_varnames := (\<lambda>_. 0), m_handleLines := (\<lambda>_. {}) \<rparr>
                 else s3')"
  have m4: "m_modp s4 \<noteq> None" by (simp add: s4_def s3'_def s3_def)
  have ok: "visitOk s4 (iterateChildren opt (Node (KModule name isTop isClass) fl o1 o2 o3 o4) s4)"
    by (rule visit_visitOk(2))
  have eq: "visit opt (Node (KModule name isTop isClass) fl o1 o2 o3 o4) st =
     (case iterateChildren opt (Node (KModule name isTop isClass) fl o1 o2 o3 o4) s4 of
           Inl e \<Rightarrow> Inl e
         | Inr (Node k' fl' o1' o2' o3' o4', st5) \<Rightarrow>
             Inr ([Node k' fl' o1' (o2' @ m_modStmts st5) o3' o4'],
                  st5\<lparr> m_modp := m_modp st, m_state := m_state st,
                       m_modStmts := m_modStmts st \<rparr>))"
    by (simp add: Let_def s4_def s3'_def s3_def del: iterateChildren.simps)
  from assms[unfolded eq] have "iterateChildren opt (Node (KModule name isTop isClass) fl o1 o2 o3 o4) s4 = Inl e"
    by (auto split: sum.splits prod.splits node.splits)
  with ok m4 show ?thesis by simp
qed

lemma modules_error:
  "\<forall>n\<in>set ns. isModule n \<Longrightarrow> iterateAndNextNull opt ns st = Inl e \<Longrightarrow> toggleFatal e"
proof (induction ns arbitrary: st)
  case Nil
  then show ?case by simp
next
  case (Cons n ns)
  from Cons.prems(1) obtain name isTop isClass fl o1 o2 o3 o4
    where n: "n = Node (KModule name isTop isClass) fl o1 o2 o3 o4"
    by (cases n rule: isModule.cases) auto
  show ?case
  proof (cases "visit opt n st")
    case (Inl e')
    with Cons.prems(2) have "e' = e" by simp
    with Inl have "visit opt n st = Inl e" by simp
    then show ?thesis unfolding n by (rule visit_Module_error)
  next
    case (Inr p)
    obtain r st1 where p: "p = (r, st1)" by (cases p)
    from Cons.prems(2) Inr p have "iterateAndNextNull opt ns st1 = Inl e"
      by (auto split: sum.splits)
    with Cons.IH[of st1] Cons.prems(1) show ?thesis by simp
  qed
qed

lemma clearUser1_isModule: "isModule (clearUser1 n) = isModule n"
proof (cases n)
  case (Node k fl o1 o2 o3 o4)
  then show ?thesis by (cases k) simp_all
qed

lemma Inr_collapse: "\<not> isl x \<Longrightarrow> x = Inr (fst (projr x), snd (projr x))"
  by (cases x) auto

lemma Inr_fst_snd: "\<not> isl x \<Longrightarrow> fst (projr x) = a \<Longrightarrow> x = Inr (a, snd (projr x))"
  by (cases x) auto

lemma traceNameForLine_nonempty: "fst (traceNameForLine fl type st) \<noteq> []"
  by (simp add: traceNameForLine_def Let_def)

lemma lineCoverInc_result:
  assumes "m_modp st = Some modp"
  shows "\<exists>newp st'. lineCoverInc opt fl pp ty cs off st = Inr (newp, st')
           \<and> isIncrement newp fl (lineDecl pp modp ty (linesCov st cs) off)
           \<and> length newp = (if traceCoverage opt \<and> \<not> mod_isClass modp then 2 else 1)
           \<and> m_modp st' = m_modp st \<and> m_state st' = m_state st
           \<and> m_handleLines st' = m_handleLines st"
proof -
  obtain tname st1 where t: "traceNameForLine fl ty st = (tname, st1)"
    by (cases "traceNameForLine fl ty st")
  from traceNameForLine_nonempty[of fl ty st] t have ne: "tname \<noteq> []" by simp
  from t have s1: "m_modp st1 = m_modp st" "m_state st1 = m_state st"
    "m_handleLines st1 = m_handleLines st"
    by (auto simp: traceNameForLine_def Let_def)
  show ?thesis
    using assms ne s1
    by (auto simp: lineCoverInc_def t newCoverInc_def Let_def addModStmt_def isIncrement_def
          lineDecl_def)
qed


text \<open>The increments a conditional receives, by the four cases of \<open>ifCover\<close>.\<close>

lemma ifCover_branch:
  assumes "m_modp st = Some modp" and "\<not> first_elsif" "\<not> cont_elsif" "\<not> final_elsif"
    and "lineCoverageOn opt ifState fl" and "lineCoverageOn opt elseState fl"
  shows "\<exists>incif incelse st'.
           ifCover opt fl first_elsif cont_elsif final_elsif ifState elseState thensp elsesp st
             = Inr (thensp @ incif, elsesp @ incelse, st')
           \<and> isIncrement incif fl (lineDecl ''v_branch'' modp ''if'' (linesCov st ifState) 0)
           \<and> isIncrement incelse fl (lineDecl ''v_branch'' modp ''else'' (linesCov st elseState) 1)
           \<and> length incelse = (if traceCoverage opt \<and> \<not> mod_isClass modp then 2 else 1)"
proof -
  from lineCoverInc_result[OF assms(1), of opt fl "''v_branch''" "''if''" ifState 0]
  obtain incif st1 where 1: "lineCoverInc opt fl ''v_branch'' ''if'' ifState 0 st = Inr (incif, st1)"
    and i1: "isIncrement incif fl (lineDecl ''v_branch'' modp ''if'' (linesCov st ifState) 0)"
    and m1: "m_modp st1 = m_modp st" and h1: "m_handleLines st1 = m_handleLines st" by blast
  from m1 assms(1) have m1': "m_modp st1 = Some modp" by simp
  from lineCoverInc_result[OF m1', of opt fl "''v_branch''" "''else''" elseState 1]
  obtain incelse st2 where 2: "lineCoverInc opt fl ''v_branch'' ''else'' elseState 1 st1 = Inr (incelse, st2)"
    and i2: "isIncrement incelse fl (lineDecl ''v_branch'' modp ''else'' (linesCov st1 elseState) 1)"
    and l2: "length incelse = (if traceCoverage opt \<and> \<not> mod_isClass modp then 2 else 1)" by blast
  from h1 have "linesCov st1 elseState = linesCov st elseState" by (simp add: linesCov_def)
  with i2 have i2': "isIncrement incelse fl (lineDecl ''v_branch'' modp ''else'' (linesCov st elseState) 1)"
    by simp
  have "ifCover opt fl first_elsif cont_elsif final_elsif ifState elseState thensp elsesp st
             = Inr (thensp @ incif, elsesp @ incelse, st2)"
    using assms 1 2 by (simp add: ifCover_def)
  with i1 i2' l2 show ?thesis by blast
qed

lemma ifCover_elsif:
  assumes "m_modp st = Some modp" and "first_elsif \<or> cont_elsif"
  shows "\<exists>incif st'.
           ifCover opt fl first_elsif cont_elsif final_elsif ifState elseState thensp elsesp st
             = Inr (thensp @ incif, elsesp, st')
           \<and> (if lineCoverageOn opt ifState fl
                then isIncrement incif fl (lineDecl ''v_line'' modp ''elsif'' (linesCov st ifState) 0)
                else incif = [])"
proof (cases "lineCoverageOn opt ifState fl")
  case True
  from lineCoverInc_result[OF assms(1), of opt fl "''v_line''" "''elsif''" ifState 0]
  obtain incif st1 where 1: "lineCoverInc opt fl ''v_line'' ''elsif'' ifState 0 st = Inr (incif, st1)"
    and i1: "isIncrement incif fl (lineDecl ''v_line'' modp ''elsif'' (linesCov st ifState) 0)"
    by blast
  have "ifCover opt fl first_elsif cont_elsif final_elsif ifState elseState thensp elsesp st
             = Inr (thensp @ incif, elsesp, st1)"
    using assms True 1 by (auto simp: ifCover_def)
  with i1 True show ?thesis by auto
next
  case False
  have "ifCover opt fl first_elsif cont_elsif final_elsif ifState elseState thensp elsesp st
             = Inr (thensp @ [], elsesp, st)"
    using assms False by (auto simp: ifCover_def)
  with False show ?thesis by (intro exI[of _ "[]"] exI[of _ st]) simp
qed

text \<open>The visit of a conditional in an enabled scope, from the visits of its branches.\<close>

lemma visit_If_on:
  assumes "m_on (m_state st)"
    and "iterateAndNextNull opt thensp (createHandle fl st) = Inr (thensp', st1)"
    and "iterateAndNextNull opt (markElsif thensp elsesp)
           (createHandle fl ((lineTrack opt fl st1)\<lparr> m_state := m_state st \<rparr>)) = Inr (elsesp', st3)"
  shows "visit opt (Node (KIf user1) fl condp thensp elsesp o4) st =
     (case ifCover opt fl (\<not> user1 \<and> isElsif thensp elsesp) (user1 \<and> isElsif thensp elsesp)
             (user1 \<and> \<not> isElsif thensp elsesp \<and> elsesp \<noteq> [])
             (m_state (lineTrack opt fl st1)) (m_state st3) thensp' elsesp'
             (st3\<lparr> m_state := m_state st \<rparr>) of
        Inl e \<Rightarrow> Inl e
      | Inr (thensp'', elsesp'', st4) \<Rightarrow>
          Inr ([Node (KIf user1) fl condp thensp'' elsesp'' o4], st4\<lparr> m_state := m_state st \<rparr>))"
  using assms by (simp add: Let_def)

lemma if_branch_states:
  assumes "iterateAndNextNull opt thensp (createHandle fl st) = Inr (thensp', st1)"
    and "iterateAndNextNull opt es
           (createHandle fl ((lineTrack opt fl st1)\<lparr> m_state := m_state st \<rparr>)) = Inr (elsesp', st3)"
  shows "m_modp (st3\<lparr> m_state := m_state st \<rparr>) = m_modp st"
    and "m_inModOff (m_state (lineTrack opt fl st1)) = m_inModOff (m_state st)"
    and "m_handleLines (st3\<lparr> m_state := m_state st \<rparr>) = m_handleLines st3"
proof -
  from iterateAndNextNull_frame[OF assms(1)] have f1: "frame (createHandle fl st) st1" .
  from iterateAndNextNull_frame[OF assms(2)]
  have f2: "frame (createHandle fl ((lineTrack opt fl st1)\<lparr> m_state := m_state st \<rparr>)) st3" .
  from f1 f2 show "m_modp (st3\<lparr> m_state := m_state st \<rparr>) = m_modp st"
    by (simp add: frame_def createHandle_def lineTrack_def)
  from f1 show "m_inModOff (m_state (lineTrack opt fl st1)) = m_inModOff (m_state st)"
    by (simp add: frame_def createHandle_def lineTrack_def)
  show "m_handleLines (st3\<lparr> m_state := m_state st \<rparr>) = m_handleLines st3" by simp
qed

section \<open>Properties of the toggle decomposition\<close>

lemma startsWith_refl: "startsWith p (p @ s)"
  by (simp add: startsWith_def)

lemma startsWith_app: "startsWith (p @ q) s \<Longrightarrow> startsWith p s"
  by (auto simp: startsWith_def) (metis append_eq_conv_conj append_take_drop_id take_append
      append.assoc)

lemma leafOk_weaken:
  assumes "leafOk lax varp newent n"
    and "m_comment newent = m_comment ent @ x"
    and "rootVar (m_varRefp newent) = rootVar (m_varRefp ent)"
    and "rootVar (m_chgRefp newent) = rootVar (m_chgRefp ent)
         \<or> (lax' \<and> rootVar (m_chgRefp newent) = rootVar (m_varRefp ent))"
    and "lax \<longrightarrow> lax'"
  shows "leafOk lax' varp ent n"
  using assms
  by (auto simp: leafOk_def split: nkind.splits
        dest: startsWith_app[of "v_name varp @ m_comment ent" x, simplified])

lemma leavesOk_Inr_same: "leavesOk P st (Inr st)"
  by (auto simp: leavesOk_def intro: exI[of _ "[]"])

lemma leavesOk_mono: "leavesOk P st res \<Longrightarrow> (\<And>n. P n \<Longrightarrow> Q n) \<Longrightarrow> leavesOk Q st res"
  by (cases res) (auto simp: leavesOk_def list_all_iff)

lemma leavesOk_bind:
  assumes "leavesOk P st m" and "\<And>st1. m = Inr st1 \<Longrightarrow> leavesOk P st1 (f st1)"
  shows "leavesOk P st (case m of Inl e \<Rightarrow> Inl e | Inr st1 \<Rightarrow> f st1)"
proof (cases m)
  case (Inl e)
  then show ?thesis by (simp add: leavesOk_def)
next
  case (Inr st1)
  from assms(1) Inr obtain new where st1: "st1 = st\<lparr> m_modStmts := m_modStmts st @ new \<rparr>"
    and p1: "list_all P new" by (auto simp: leavesOk_def)
  from assms(2)[OF Inr] have ok: "leavesOk P st1 (f st1)" .
  show ?thesis
  proof (cases "f st1")
    case (Inl e)
    then show ?thesis using Inr by (simp add: leavesOk_def)
  next
    case r: (Inr st2)
    from ok r obtain new2 where s2: "st2 = st1\<lparr> m_modStmts := m_modStmts st1 @ new2 \<rparr>"
      and p2: "list_all P new2" by (auto simp: leavesOk_def)
    from st1 s2 have "st2 = st\<lparr> m_modStmts := m_modStmts st @ (new @ new2) \<rparr>" by simp
    moreover from p1 p2 have "list_all P (new @ new2)" by simp
    ultimately show ?thesis using Inr r unfolding leavesOk_def by (simp only: sum.case) blast
  qed
qed

lemma leavesOk_toggleVarBottom:
  "leavesOk (leafOk False varp ent) st (toggleVarBottom opt ent fl varp st)"
  by (auto simp: leavesOk_def toggleVarBottom_def newCoverInc_def Let_def addModStmt_def
        leafOk_def startsWith_refl[of _ "[]", simplified] split: option.splits)

lemma leavesOk_toggleBits:
  "leavesOk (leafOk False varp ent) st (toggleBits opt lo idxs ent fl varp st)"
proof (induction idxs arbitrary: st)
  case Nil
  then show ?case by (simp add: leavesOk_Inr_same)
next
  case (Cons i idxs)
  let ?newent = "\<lparr> m_comment = m_comment ent @ ''['' @ cvtToStr i @ '']'',
                     m_varRefp = Sel (m_varRefp ent) (i - lo) 1,
                     m_chgRefp = Sel (m_chgRefp ent) (i - lo) 1 \<rparr>"
  have "leavesOk (leafOk False varp ?newent) st (toggleVarBottom opt ?newent fl varp st)"
    by (rule leavesOk_toggleVarBottom)
  then have b: "leavesOk (leafOk False varp ent) st (toggleVarBottom opt ?newent fl varp st)"
    by (rule leavesOk_mono) (erule leafOk_weaken, simp_all)
  show ?case
    apply (simp only: toggleBits.simps Let_def)
    apply (rule leavesOk_bind[OF b])
    apply (rule Cons.IH)
    done
qed

lemma leavesOk_sub:
  assumes "leavesOk (leafOk lax varp newent) st res"
    and "m_comment newent = m_comment ent @ x"
    and "rootVar (m_varRefp newent) = rootVar (m_varRefp ent)"
    and "rootVar (m_chgRefp newent) = rootVar (m_chgRefp ent)
         \<or> (lax' \<and> rootVar (m_chgRefp newent) = rootVar (m_varRefp ent))"
    and "lax \<longrightarrow> lax'"
  shows "leavesOk (leafOk lax' varp ent) st res"
  using assms(1) by (rule leavesOk_mono) (erule leafOk_weaken[OF _ assms(2-5)])

lemma leavesOk_toggleVarRecurse:
  "leavesOk (leafOk (reachesUnpackedStruct d) varp ent) st
     (toggleVarRecurse opt d depth ent fl varp chg st)"
  "leavesOk (leafOk (reachesUnpackedStruct d) varp ent) st
     (toggleUnpackElems opt lo d idxs depth ent fl varp chg st)"
  "leavesOk (leafOk (reachesUnpackedStruct d) varp ent) st
     (togglePackElems opt lo d idxs depth ent fl varp chg st)"
  "leavesOk (leafOk (membersReachUnpackedStruct ms) varp ent) st
     (togglePackedMembers opt ms depth ent fl varp chg st)"
  "leavesOk (leafOk True varp ent) st
     (toggleUnpackedMembers opt ms depth ent fl varp chg st)"
proof (induction opt d depth ent fl varp chg st and opt lo d idxs depth ent fl varp chg st
         and opt lo d idxs depth ent fl varp chg st and opt ms depth ent fl varp chg st
         and opt ms depth ent fl varp chg st
       rule: toggleVarRecurse_toggleUnpackElems_togglePackElems_togglePackedMembers_toggleUnpackedMembers.induct)
  case (1 opt w ranged lo hi depth aboveEnt varfl varp chgVarp st)
  then show ?case by (simp add: leavesOk_toggleBits leavesOk_toggleVarBottom)
next
  case (4 opt w packed membersp depth aboveEnt varfl varp chgVarp st)
  show ?case
  proof (cases packed)
    case True
    with 4(1) show ?thesis by simp
  next
    case False
    with 4(2) show ?thesis by simp
  qed
next
  case (5 opt w membersp depth aboveEnt varfl varp chgVarp st)
  show ?case
  proof (cases membersp)
    case NoMember
    then show ?thesis by (simp add: leavesOk_Inr_same)
  next
    case (MemberDType name lsb subtypep nextp)
    from 5[OF MemberDType refl] MemberDType show ?thesis
      by (simp add: Let_def) (erule leavesOk_sub, simp_all)
  qed
next
  case (6 opt w prettyTypeName depth aboveEnt varfl varp chgVarp st)
  then show ?case by (simp add: leavesOk_def)
next
  case (8 opt lo subDTypep index_docs idxs depth aboveEnt varfl varp chgVarp st)
  show ?case
    apply (simp only: toggleUnpackElems.simps Let_def)
    apply (rule leavesOk_bind)
     apply (rule leavesOk_sub[OF 8(1)[OF refl refl]], simp_all)[1]
    apply (erule 8(2)[OF refl refl])
    done
next
  case (10 opt lo subDTypep index_docs idxs depth aboveEnt varfl varp chgVarp st)
  show ?case
    apply (simp only: togglePackElems.simps Let_def)
    apply (rule leavesOk_bind)
     apply (rule leavesOk_sub[OF 10(1)[OF refl refl]], simp_all)[1]
    apply (erule 10(2)[OF refl refl])
    done
next
  case (12 opt name lsb subtypep nextp depth aboveEnt varfl varp chgVarp st)
  show ?case
    apply (simp only: togglePackedMembers.simps Let_def)
    apply (rule leavesOk_bind)
     apply (rule leavesOk_sub[OF 12(1)[OF refl refl]], simp_all)[1]
    apply (rule leavesOk_mono)
     apply (erule 12(2)[OF refl refl])
    apply (erule leafOk_weaken[where x = "[]"], simp_all)
    done
next
  case (14 opt name lsb subtypep nextp depth aboveEnt varfl varp chgVarp st)
  show ?case
    apply (simp only: toggleUnpackedMembers.simps Let_def)
    apply (rule leavesOk_bind)
     apply (rule leavesOk_sub[OF 14(1)[OF refl refl refl]], simp_all)[1]
    apply (erule 14(2)[OF refl refl refl])
    done
qed (simp_all add: leavesOk_Inr_same)

lemma toggleRefs_member:
  "(a, b) \<in> set (toggleRefs ns) \<Longrightarrow> \<exists>n\<in>set ns. kind n = KCoverToggle a b"
  by (induction ns rule: toggleRefs.induct) auto

lemma toggleComments_member:
  "c \<in> set (toggleComments ns) \<Longrightarrow> \<exists>n\<in>set ns. \<exists>d. kind n = KCoverDecl d \<and> cd_comment d = c"
  by (induction ns rule: toggleComments.induct) auto

text \<open>
  Where the decomposition does not pass through an unpacked struct, every toggle record
  pairs a reference into the variable with a reference into its shadow.
\<close>

lemma toggle_refs_without_unpacked_struct:
  assumes "\<not> reachesUnpackedStruct (v_dtype nodep)" and "toggleVar opt fl nodep st = Inr st'"
  shows "\<exists>new. m_modStmts st' = m_modStmts st @ new
           \<and> (\<forall>(origp, changep)\<in>set (toggleRefs new).
                 rootVar origp = Some nodep
                 \<and> (\<exists>chg. rootVar changep = Some chg
                       \<and> v_name chg = ''__Vtogcov__'' @ v_shortName nodep
                       \<and> v_varType chg = MODULETEMP))"
proof -
  let ?go = "m_modp st \<noteq> None \<and> \<not> m_inToggleOff st \<and> \<not> m_inModOff (m_state st)
               \<and> coverageOn fl \<and> coverageToggle opt \<and> varIgnoreToggle opt nodep = None"
  show ?thesis
  proof (cases ?go)
    case False
    with assms(2) have "st' = st" by (auto simp: toggleVar_def split: if_splits option.splits)
    then show ?thesis by (intro exI[of _ "[]"]) simp
  next
    case True
    define chg where "chg = nodep\<lparr> v_name := ''__Vtogcov__'' @ v_shortName nodep,
        v_shortName := ''__Vtogcov__'' @ v_shortName nodep,
        v_prettyName := ''__Vtogcov__'' @ v_shortName nodep, v_varType := MODULETEMP,
        v_isToggleCoverable := False, v_trace := False \<rparr>"
    define cn where "cn = Node (KVar chg) (fl\<lparr> warnOffUnusedSignal := True \<rparr>) [] [] [] []"
    define st1 where "st1 = addModStmt cn st"
    define newvec where "newvec = \<lparr> m_comment = [], m_varRefp = VarRef nodep READ,
                               m_chgRefp = VarRef chg WRITE \<rparr>"
    have eq: "toggleVar opt fl nodep st = toggleVarRecurse opt (v_dtype nodep) 0 newvec fl nodep chg st1"
      using True by (simp add: toggleVar_def Let_def chg_def st1_def cn_def newvec_def)
    have "leavesOk (leafOk (reachesUnpackedStruct (v_dtype nodep)) nodep newvec) st1
            (toggleVarRecurse opt (v_dtype nodep) 0 newvec fl nodep chg st1)"
      by (rule leavesOk_toggleVarRecurse)
    with assms eq obtain new where s': "st' = st1\<lparr> m_modStmts := m_modStmts st1 @ new \<rparr>"
      and ok: "list_all (leafOk False nodep newvec) new"
      by (auto simp: leavesOk_def)
    have "\<forall>(origp, changep)\<in>set (toggleRefs (cn # new)).
                 rootVar origp = Some nodep \<and> rootVar changep = Some chg"
    proof (clarify)
      fix a b
      assume "(a, b) \<in> set (toggleRefs (cn # new))"
      then have "(a, b) \<in> set (toggleRefs new)" by (simp add: cn_def)
      from toggleRefs_member[OF this] obtain n where "n \<in> set new" "kind n = KCoverToggle a b"
        by blast
      with ok have "leafOk False nodep newvec n" by (simp add: list_all_iff)
      with \<open>kind n = KCoverToggle a b\<close>
      show "rootVar a = Some nodep \<and> rootVar b = Some chg"
        by (simp add: leafOk_def newvec_def)
    qed
    moreover have "v_name chg = ''__Vtogcov__'' @ v_shortName nodep \<and> v_varType chg = MODULETEMP"
      by (simp add: chg_def)
    moreover have "m_modStmts st' = m_modStmts st @ (cn # new)"
      by (simp add: s' st1_def addModStmt_def)
    ultimately show ?thesis by (intro exI[of _ "cn # new"]) auto
  qed
qed

section \<open>The claims\<close>

text \<open>
  C2, as amended. For a finite set of positive line numbers held under a handle, reading
  the rendered string back (split on commas, then on hyphens, expand) gives exactly the
  set; a comma-separated piece contains a hyphen exactly when it stands for more than one
  line, so a run of one line is a bare number; the empty set renders as the empty string;
  and two insertion orders of the same lines render identically. The line number 0 is
  excluded: the loop uses 0 for "no run open".
\<close>

theorem linesCov_roundtrip:
  assumes "finite (m_handleLines st (m_handle state))"
    and "\<forall>x\<in>m_handleLines st (m_handle state). 0 < x"
  shows "set (parseLines (linesCov st state)) = m_handleLines st (m_handle state)
         \<and> (\<forall>p\<in>set (splitOn CHR '','' (linesCov st state)).
               m_handleLines st (m_handle state) \<noteq> {} \<longrightarrow>
               (CHR ''-'' \<in> set p) = (1 < length (parseRange p)))
         \<and> (m_handleLines st (m_handle state) = {} \<longrightarrow> linesCov st state = [])
         \<and> (\<forall>xs ys. set xs = set ys \<longrightarrow>
               linesRender (fold insert xs {}) = linesRender (fold insert ys {}))"
proof -
  let ?S = "m_handleLines st (m_handle state)"
  have "set (parseLines (linesCov st state)) = ?S"
    using parseLines_linesRender[OF assms] assms(1) by (simp add: linesCov_def)
  moreover have "\<forall>p\<in>set (splitOn CHR '','' (linesCov st state)).
               ?S \<noteq> {} \<longrightarrow> (CHR ''-'' \<in> set p) = (1 < length (parseRange p))"
    using hyphen_iff_range[OF assms] by (auto simp: linesCov_def)
  moreover have "?S = {} \<longrightarrow> linesCov st state = []"
    by (simp add: linesCov_def linesRender_def)
  moreover have "\<forall>xs ys. set xs = set ys \<longrightarrow>
               linesRender (fold insert xs {}) = linesRender (fold insert ys {})"
    by (simp add: fold_insert_set)
  ultimately show ?thesis by blast
qed

theorem linesCov_roundtrip_witness:
  "finite (m_handleLines exLines (m_handle exCheck))
   \<and> list_all ((<) 0) (sorted_list_of_set (m_handleLines exLines (m_handle exCheck)))
   \<and> linesCov exLines exCheck = ''3-5,9-10,12''
   \<and> set (parseLines (linesCov exLines exCheck)) = {3, 4, 5, 9, 10, 12}"
proof -
  have l: "m_handleLines exLines (m_handle exCheck) = {3, 4, 5, 9, 10, 12}"
    by (simp add: exLines_def exCheck_def)
  have h1: "finite (m_handleLines exLines (m_handle exCheck))" by (simp add: l)
  have h2: "\<forall>x\<in>m_handleLines exLines (m_handle exCheck). 0 < x" by (simp add: l)
  have r: "linesCov exLines exCheck = ''3-5,9-10,12''"
    unfolding linesCov_def l by code_simp
  have h3: "list_all ((<) 0) (sorted_list_of_set (m_handleLines exLines (m_handle exCheck)))"
    unfolding l by code_simp
  from linesCov_roundtrip[OF h1 h2] have "set (parseLines (linesCov exLines exCheck))
      = m_handleLines exLines (m_handle exCheck)" by blast
  with h1 h3 r l show ?thesis by (simp only: simp_thms)
qed

theorem linesRender_zero_counterexample:
  "set (parseLines (linesRender {0})) \<noteq> {0}"
  by code_simp

subsection \<open>The toggle points of a decomposition\<close>

lemma toggleComments_append: "toggleComments (a @ b) = toggleComments a @ toggleComments b"
  by (induction a rule: toggleComments.induct) simp_all

lemma toggleRefs_append: "toggleRefs (a @ b) = toggleRefs a @ toggleRefs b"
  by (induction a rule: toggleRefs.induct) simp_all

lemma pointsR_Inr_same: "pointsR ok varp [] st (Inr st)"
  by (auto simp: pointsR_def intro: exI[of _ "[]"])

lemma pointsR_bind:
  assumes "pointsR ok1 varp ns1 st m"
    and "\<And>st1. m = Inr st1 \<Longrightarrow> pointsR ok2 varp ns2 st1 (f st1)"
    and "ok \<longrightarrow> ok1 \<and> ok2" and "names = ns1 @ ns2"
  shows "pointsR ok varp names st (case m of Inl e \<Rightarrow> Inl e | Inr st1 \<Rightarrow> f st1)"
proof (cases m)
  case (Inl e)
  with assms(1,3) show ?thesis by (auto simp: pointsR_def)
next
  case (Inr st1)
  from assms(1) Inr obtain new where st1: "st1 = st\<lparr> m_modStmts := m_modStmts st @ new \<rparr>"
    and c1: "toggleComments new = map (\<lambda>s. v_name varp @ s) ns1"
    and r1: "length (toggleRefs new) = length ns1"
    and l1: "length new = 2 * length ns1" by (auto simp: pointsR_def)
  from assms(2)[OF Inr] have ok: "pointsR ok2 varp ns2 st1 (f st1)" .
  show ?thesis
  proof (cases "f st1")
    case (Inl e)
    with ok st1 assms(3) show ?thesis using Inr by (auto simp: pointsR_def)
  next
    case r: (Inr st2)
    from ok r obtain new2 where s2: "st2 = st1\<lparr> m_modStmts := m_modStmts st1 @ new2 \<rparr>"
      and c2: "toggleComments new2 = map (\<lambda>s. v_name varp @ s) ns2"
      and r2: "length (toggleRefs new2) = length ns2"
      and l2: "length new2 = 2 * length ns2" by (auto simp: pointsR_def)
    from st1 s2 have "st2 = st\<lparr> m_modStmts := m_modStmts st @ (new @ new2) \<rparr>" by simp
    moreover from c1 c2 assms(4)
    have "toggleComments (new @ new2) = map (\<lambda>s. v_name varp @ s) names"
      by (simp add: toggleComments_append)
    moreover from r1 r2 assms(4) have "length (toggleRefs (new @ new2)) = length names"
      by (simp add: toggleRefs_append)
    moreover from l1 l2 assms(4) have "length (new @ new2) = 2 * length names" by simp
    ultimately show ?thesis using Inr r unfolding pointsR_def by (simp only: sum.case) blast
  qed
qed

lemma pointsR_toggleVarBottom:
  "pointsR ok varp [m_comment ent] st (toggleVarBottom opt ent fl varp st)"
  by (auto simp: pointsR_def toggleVarBottom_def newCoverInc_def Let_def addModStmt_def
        split: option.splits)

lemma pointsR_toggleBits:
  "pointsR ok varp (map (\<lambda>i. m_comment ent @ ''['' @ cvtToStr i @ '']'') idxs) st
     (toggleBits opt lo idxs ent fl varp st)"
proof (induction idxs arbitrary: st)
  case Nil
  then show ?case by (simp add: pointsR_Inr_same)
next
  case (Cons i idxs)
  let ?newent = "\<lparr> m_comment = m_comment ent @ ''['' @ cvtToStr i @ '']'',
                     m_varRefp = Sel (m_varRefp ent) (i - lo) 1,
                     m_chgRefp = Sel (m_chgRefp ent) (i - lo) 1 \<rparr>"
  have b: "pointsR ok varp [m_comment ?newent] st (toggleVarBottom opt ?newent fl varp st)"
    by (rule pointsR_toggleVarBottom)
  show ?case
    apply (simp only: toggleBits.simps Let_def)
    apply (rule pointsR_bind[OF b])
      apply (rule Cons.IH)
     apply simp_all
    done
qed

lemma pointsR_cong:
  "pointsR ok varp names st res \<Longrightarrow> ok' \<longrightarrow> ok \<Longrightarrow> names' = names \<Longrightarrow> pointsR ok' varp names' st res"
  by (cases res) (auto simp: pointsR_def)

lemma pointsR_toggleVarRecurse:
  "pointsR (decomposable d) varp (map (\<lambda>s. m_comment ent @ s) (laneNames d)) st
     (toggleVarRecurse opt d depth ent fl varp chg st)"
  "pointsR (decomposable d) varp
     (concat (map (\<lambda>i. map (\<lambda>s. m_comment ent @ ''['' @ cvtToStr i @ '']'' @ s) (laneNames d)) idxs)) st
     (toggleUnpackElems opt lo d idxs depth ent fl varp chg st)"
  "pointsR (decomposable d) varp
     (concat (map (\<lambda>i. map (\<lambda>s. m_comment ent @ ''['' @ cvtToStr i @ '']'' @ s) (laneNames d)) idxs)) st
     (togglePackElems opt lo d idxs depth ent fl varp chg st)"
  "pointsR (membersDecomposable ms) varp (map (\<lambda>s. m_comment ent @ s) (memberLaneNames ms)) st
     (togglePackedMembers opt ms depth ent fl varp chg st)"
  "pointsR (membersDecomposable ms) varp (map (\<lambda>s. m_comment ent @ s) (memberLaneNames ms)) st
     (toggleUnpackedMembers opt ms depth ent fl varp chg st)"
proof (induction opt d depth ent fl varp chg st and opt lo d idxs depth ent fl varp chg st
         and opt lo d idxs depth ent fl varp chg st and opt ms depth ent fl varp chg st
         and opt ms depth ent fl varp chg st
       rule: toggleVarRecurse_toggleUnpackElems_togglePackElems_togglePackedMembers_toggleUnpackedMembers.induct)
  case (1 opt w ranged lo hi depth aboveEnt varfl varp chgVarp st)
  show ?case
  proof (cases ranged)
    case True
    from pointsR_toggleBits[of True varp aboveEnt "[lo .. hi]" st opt lo varfl] True
    show ?thesis by (simp add: comp_def)
  next
    case False
    from pointsR_toggleVarBottom[of True varp aboveEnt st opt varfl] False
    show ?thesis by simp
  qed
next
  case (2 opt w lo hi subDTypep depth aboveEnt varfl varp chgVarp st)
  then show ?case by (simp add: map_concat comp_def)
next
  case (3 opt w lo hi subDTypep depth aboveEnt varfl varp chgVarp st)
  then show ?case by (simp add: map_concat comp_def)
next
  case (4 opt w packed membersp depth aboveEnt varfl varp chgVarp st)
  show ?case
  proof (cases packed)
    case True
    with 4(1) show ?thesis by simp
  next
    case False
    with 4(2) show ?thesis by simp
  qed
next
  case (5 opt w membersp depth aboveEnt varfl varp chgVarp st)
  show ?case
  proof (cases membersp)
    case NoMember
    then show ?thesis by (simp add: pointsR_Inr_same)
  next
    case (MemberDType name lsb subtypep nextp)
    from 5[OF MemberDType refl] MemberDType show ?thesis
      by (simp add: Let_def comp_def)
  qed
next
  case (6 opt w prettyTypeName depth aboveEnt varfl varp chgVarp st)
  then show ?case by (simp add: pointsR_def)
next
  case (8 opt lo subDTypep index_docs idxs depth aboveEnt varfl varp chgVarp st)
  show ?case
    apply (simp only: toggleUnpackElems.simps Let_def)
    apply (rule pointsR_bind)
       apply (rule 8(1)[OF refl refl])
      apply (erule 8(2)[OF refl refl])
     apply (simp_all add: comp_def)
    done
next
  case (10 opt lo subDTypep index_docs idxs depth aboveEnt varfl varp chgVarp st)
  show ?case
    apply (simp only: togglePackElems.simps Let_def)
    apply (rule pointsR_bind)
       apply (rule 10(1)[OF refl refl])
      apply (erule 10(2)[OF refl refl])
     apply (simp_all add: comp_def)
    done
next
  case (12 opt name lsb subtypep nextp depth aboveEnt varfl varp chgVarp st)
  show ?case
    apply (simp only: togglePackedMembers.simps Let_def)
    apply (rule pointsR_bind)
       apply (rule 12(1)[OF refl refl])
      apply (erule 12(2)[OF refl refl])
     apply (simp_all add: comp_def)
    done
next
  case (14 opt name lsb subtypep nextp depth aboveEnt varfl varp chgVarp st)
  show ?case
    apply (simp only: toggleUnpackedMembers.simps Let_def)
    apply (rule pointsR_bind)
       apply (rule 14(1)[OF refl refl refl])
      apply (erule 14(2)[OF refl refl refl])
     apply (simp_all add: comp_def)
    done
qed (simp_all add: pointsR_Inr_same)

text \<open>
  C7. The decomposition of a union with at least one member is the decomposition of its
  first member, with the member's name added to the comment and the references kept;
  the members after the first have no part in it, so whatever they are the result is
  the same. When it returns it has added to the module, for each bit-lane of the first
  member and in their order, the declaration of a toggle point named by the variable,
  the comment so far, the first member and the lane, and one toggle record whose first
  reference points into the variable; nothing else is added, so every point is named
  below the first member. Inside a module it does return when the first member is
  decomposable.
\<close>

theorem union_first_member_only:
  "toggleVarRecurse opt (UnionDType w (MemberDType name lsb subtypep nextp)) depth aboveEnt
       varfl varp chgVarp st
     = toggleVarRecurse opt subtypep (depth + 1)
         \<lparr> m_comment = m_comment aboveEnt @ ''.'' @ name, m_varRefp = m_varRefp aboveEnt,
           m_chgRefp = m_chgRefp aboveEnt \<rparr> varfl varp chgVarp st
   \<and> toggleVarRecurse opt (UnionDType w (MemberDType name lsb subtypep nextp)) depth aboveEnt
       varfl varp chgVarp st
     = toggleVarRecurse opt (UnionDType w' (MemberDType name lsb subtypep nextp')) depth aboveEnt
       varfl varp chgVarp st
   \<and> (\<forall>st'. toggleVarRecurse opt (UnionDType w (MemberDType name lsb subtypep nextp)) depth
               aboveEnt varfl varp chgVarp st = Inr st' \<longrightarrow>
         (\<exists>new. m_modStmts st' = m_modStmts st @ new
            \<and> toggleComments new
                = map (\<lambda>s. v_name varp @ m_comment aboveEnt @ ''.'' @ name @ s) (laneNames subtypep)
            \<and> length (toggleRefs new) = length (laneNames subtypep)
            \<and> length new = 2 * length (laneNames subtypep)
            \<and> (\<forall>(origp, changep)\<in>set (toggleRefs new).
                  rootVar origp = rootVar (m_varRefp aboveEnt))
            \<and> (\<forall>c\<in>set (toggleComments new).
                  startsWith (v_name varp @ m_comment aboveEnt @ ''.'' @ name) c)))
   \<and> (m_modp st \<noteq> None \<longrightarrow> decomposable subtypep \<longrightarrow>
         (\<exists>st'. toggleVarRecurse opt (UnionDType w (MemberDType name lsb subtypep nextp)) depth
                  aboveEnt varfl varp chgVarp st = Inr st'))"
proof -
  let ?newent = "\<lparr> m_comment = m_comment aboveEnt @ ''.'' @ name, m_varRefp = m_varRefp aboveEnt,
           m_chgRefp = m_chgRefp aboveEnt \<rparr>"
  let ?sub = "toggleVarRecurse opt subtypep (depth + 1) ?newent varfl varp chgVarp st"
  have eq: "toggleVarRecurse opt (UnionDType w (MemberDType name lsb subtypep nextp)) depth aboveEnt
       varfl varp chgVarp st = ?sub"
    by (simp add: Let_def)
  have ok: "leavesOk (leafOk (reachesUnpackedStruct subtypep) varp ?newent) st ?sub"
    by (rule leavesOk_toggleVarRecurse)
  have pts: "pointsR (decomposable subtypep) varp
               (map (\<lambda>s. m_comment ?newent @ s) (laneNames subtypep)) st ?sub"
    by (rule pointsR_toggleVarRecurse)
  have a: "\<forall>st'. ?sub = Inr st' \<longrightarrow>
         (\<exists>new. m_modStmts st' = m_modStmts st @ new
            \<and> toggleComments new
                = map (\<lambda>s. v_name varp @ m_comment aboveEnt @ ''.'' @ name @ s) (laneNames subtypep)
            \<and> length (toggleRefs new) = length (laneNames subtypep)
            \<and> length new = 2 * length (laneNames subtypep)
            \<and> (\<forall>(origp, changep)\<in>set (toggleRefs new).
                  rootVar origp = rootVar (m_varRefp aboveEnt))
            \<and> (\<forall>c\<in>set (toggleComments new).
                  startsWith (v_name varp @ m_comment aboveEnt @ ''.'' @ name) c))"
  proof (intro allI impI)
    fix st'
    assume r: "?sub = Inr st'"
    with ok obtain new where s': "st' = st\<lparr> m_modStmts := m_modStmts st @ new \<rparr>"
      and l: "list_all (leafOk (reachesUnpackedStruct subtypep) varp ?newent) new"
      by (auto simp: leavesOk_def)
    from pts r obtain new2 where s2: "st' = st\<lparr> m_modStmts := m_modStmts st @ new2 \<rparr>"
      and c: "toggleComments new2 = map (\<lambda>s. v_name varp @ s)
                 (map (\<lambda>s. m_comment ?newent @ s) (laneNames subtypep))"
      and n: "length (toggleRefs new2) = length (map (\<lambda>s. m_comment ?newent @ s) (laneNames subtypep))"
      and k: "length new2 = 2 * length (map (\<lambda>s. m_comment ?newent @ s) (laneNames subtypep))"
      by (auto simp: pointsR_def)
    from s' s2 have "m_modStmts st @ new = m_modStmts st @ new2"
      by (metis vstate.select_convs(4) vstate.surjective vstate.update_convs(4))
    then have nn: "new2 = new" by simp
    from c nn have c': "toggleComments new
                = map (\<lambda>s. v_name varp @ m_comment aboveEnt @ ''.'' @ name @ s) (laneNames subtypep)"
      by (simp add: comp_def)
    have refs: "\<forall>(origp, changep)\<in>set (toggleRefs new). rootVar origp = rootVar (m_varRefp aboveEnt)"
    proof (clarify)
      fix origp changep
      assume "(origp, changep) \<in> set (toggleRefs new)"
      from toggleRefs_member[OF this] obtain n where "n \<in> set new"
        and kn: "kind n = KCoverToggle origp changep" by blast
      with l have "leafOk (reachesUnpackedStruct subtypep) varp ?newent n"
        by (simp add: list_all_iff)
      with kn show "rootVar origp = rootVar (m_varRefp aboveEnt)" by (simp add: leafOk_def)
    qed
    have pre: "\<forall>c\<in>set (toggleComments new).
                  startsWith (v_name varp @ m_comment aboveEnt @ ''.'' @ name) c"
      unfolding c' by (auto simp: startsWith_def)
    from s' c' n k nn refs pre
    show "\<exists>new. m_modStmts st' = m_modStmts st @ new
            \<and> toggleComments new
                = map (\<lambda>s. v_name varp @ m_comment aboveEnt @ ''.'' @ name @ s) (laneNames subtypep)
            \<and> length (toggleRefs new) = length (laneNames subtypep)
            \<and> length new = 2 * length (laneNames subtypep)
            \<and> (\<forall>(origp, changep)\<in>set (toggleRefs new).
                  rootVar origp = rootVar (m_varRefp aboveEnt))
            \<and> (\<forall>c\<in>set (toggleComments new).
                  startsWith (v_name varp @ m_comment aboveEnt @ ''.'' @ name) c)"
      by (intro exI[of _ new]) simp
  qed
  have b: "m_modp st \<noteq> None \<longrightarrow> decomposable subtypep \<longrightarrow> (\<exists>st'. ?sub = Inr st')"
    using pts by (cases ?sub) (auto simp: pointsR_def)
  have i: "toggleVarRecurse opt (UnionDType w' (MemberDType name lsb subtypep nextp')) depth aboveEnt
       varfl varp chgVarp st = ?sub"
    by (simp add: Let_def)
  from a b show ?thesis unfolding eq i by (intro conjI) simp_all
qed

theorem union_first_member_only_witness:
  "toggleComments (toggleOutput (toggleVarRecurse exOpt (v_dtype exUnionVar) 0
       \<lparr> m_comment = [], m_varRefp = VarRef exUnionVar READ, m_chgRefp = VarRef exUnionShadow WRITE \<rparr>
       exFl exUnionVar exUnionShadow exState))
     = [''u.a[0]'', ''u.a[1]'', ''u.a[2]'', ''u.a[3]'']
   \<and> toggleRefs (toggleOutput (toggleVarRecurse exOpt (v_dtype exUnionVar) 0
       \<lparr> m_comment = [], m_varRefp = VarRef exUnionVar READ, m_chgRefp = VarRef exUnionShadow WRITE \<rparr>
       exFl exUnionVar exUnionShadow exState))
     = [(Sel (VarRef exUnionVar READ) 0 1, Sel (VarRef exUnionShadow WRITE) 0 1),
        (Sel (VarRef exUnionVar READ) 1 1, Sel (VarRef exUnionShadow WRITE) 1 1),
        (Sel (VarRef exUnionVar READ) 2 1, Sel (VarRef exUnionShadow WRITE) 2 1),
        (Sel (VarRef exUnionVar READ) 3 1, Sel (VarRef exUnionShadow WRITE) 3 1)]
   \<and> (\<exists>new. toggleOutput (toggleVarRecurse exOpt (v_dtype exUnionVar) 0
       \<lparr> m_comment = [], m_varRefp = VarRef exUnionVar READ, m_chgRefp = VarRef exUnionShadow WRITE \<rparr>
       exFl exUnionVar exUnionShadow exState) = m_modStmts exState @ new
       \<and> toggleComments new = [''u.a[0]'', ''u.a[1]'', ''u.a[2]'', ''u.a[3]'']
       \<and> length (toggleRefs new) = 4 \<and> length new = 8)"
proof -
  let ?ent = "\<lparr> m_comment = [], m_varRefp = VarRef exUnionVar READ,
                 m_chgRefp = VarRef exUnionShadow WRITE \<rparr>"
  let ?d = "UnionDType 8 (MemberDType ''a'' 0 (BasicDType 4 True 0 3)
                   (MemberDType ''b'' 0 (BasicDType 8 True 0 7) NoMember))"
  define res where "res = toggleVarRecurse exOpt ?d 0 ?ent exFl exUnionVar exUnionShadow exState"
  have d: "v_dtype exUnionVar = ?d" by (simp add: exUnionVar_def)
  have h1: "m_modp exState \<noteq> None" by code_simp
  have h2: "decomposable (BasicDType 4 True 0 3)" by simp
  have ln: "map (\<lambda>s. v_name exUnionVar @ m_comment ?ent @ ''.'' @ ''a'' @ s) (laneNames (BasicDType 4 True 0 3))
              = [''u.a[0]'', ''u.a[1]'', ''u.a[2]'', ''u.a[3]'']"
    by code_simp
  have ll: "length (laneNames (BasicDType 4 True 0 3)) = 4" by code_simp
  note t = union_first_member_only[of exOpt 8 "''a''" 0 "BasicDType 4 True 0 3"
      "MemberDType ''b'' 0 (BasicDType 8 True 0 7) NoMember" 0 ?ent exFl exUnionVar exUnionShadow exState]
  from t h1 h2 obtain st' where r: "res = Inr st'" unfolding res_def by blast
  with t obtain new where n: "m_modStmts st' = m_modStmts exState @ new"
    and c: "toggleComments new
              = map (\<lambda>s. v_name exUnionVar @ m_comment ?ent @ ''.'' @ ''a'' @ s) (laneNames (BasicDType 4 True 0 3))"
    and k: "length (toggleRefs new) = length (laneNames (BasicDType 4 True 0 3))"
    and l: "length new = 2 * length (laneNames (BasicDType 4 True 0 3))"
    unfolding res_def by blast
  from r have to: "toggleOutput res = m_modStmts st'" by (simp add: toggleOutput_def)
  have e: "\<exists>new. toggleOutput res = m_modStmts exState @ new
       \<and> toggleComments new = [''u.a[0]'', ''u.a[1]'', ''u.a[2]'', ''u.a[3]'']
       \<and> length (toggleRefs new) = 4 \<and> length new = 8"
    using n c k l to unfolding ln ll by (intro exI[of _ new]) simp
  have o: "toggleComments (toggleOutput res) = [''u.a[0]'', ''u.a[1]'', ''u.a[2]'', ''u.a[3]'']"
    unfolding res_def by code_simp
  have p: "toggleRefs (toggleOutput res)
     = [(Sel (VarRef exUnionVar READ) 0 1, Sel (VarRef exUnionShadow WRITE) 0 1),
        (Sel (VarRef exUnionVar READ) 1 1, Sel (VarRef exUnionShadow WRITE) 1 1),
        (Sel (VarRef exUnionVar READ) 2 1, Sel (VarRef exUnionShadow WRITE) 2 1),
        (Sel (VarRef exUnionVar READ) 3 1, Sel (VarRef exUnionShadow WRITE) 3 1)]"
    unfolding res_def by code_simp
  from o p e show ?thesis unfolding res_def d by (intro conjI)
qed

text \<open>
  C8. A data type of any kind other than basic, unpacked array, packed array, struct or
  union makes the decomposition end with the fatal error on that type node, so nothing
  is produced for it. No other error is raised by the pass: inside a module a visit that
  fails has failed with this error, and so has the pass on a netlist of modules.
\<close>

theorem unexpected_dtype_fatal:
  "toggleVarRecurse opt (OtherDType w prettyTypeName) depth aboveEnt varfl varp chgVarp st
     = Inl (FatalSrc (ErrDType (OtherDType w prettyTypeName))
              (''Unexpected node data type in toggle coverage generation: '' @ prettyTypeName))
   \<and> (\<forall>n st' e. m_modp st' \<noteq> None \<longrightarrow> visit opt n st' = Inl e \<longrightarrow> toggleFatal e)
   \<and> (\<forall>rootChildren e. (\<forall>n\<in>set rootChildren. isModule n) \<longrightarrow>
         coverage opt rootChildren = Inl e \<longrightarrow> toggleFatal e)"
proof -
  have "\<forall>rootChildren e. (\<forall>n\<in>set rootChildren. isModule n) \<longrightarrow>
         coverage opt rootChildren = Inl e \<longrightarrow> toggleFatal e"
  proof (intro allI impI)
    fix rootChildren e
    assume m: "\<forall>n\<in>set rootChildren. isModule n" and c: "coverage opt rootChildren = Inl e"
    from m have "\<forall>n\<in>set (map clearUser1 rootChildren). isModule n"
      by (simp add: clearUser1_isModule)
    moreover from c have "iterateAndNextNull opt (map clearUser1 rootChildren) initState = Inl e"
      by (auto simp: coverage_def split: sum.splits)
    ultimately show "toggleFatal e" by (rule modules_error)
  qed
  moreover have "\<forall>n st' e. m_modp st' \<noteq> None \<longrightarrow> visit opt n st' = Inl e \<longrightarrow> toggleFatal e"
    using visit_error by blast
  ultimately show ?thesis by simp
qed

theorem unexpected_dtype_fatal_witness:
  "list_all isModule exBadNetlist
   \<and> coverage exOpt exBadNetlist
       = Inl (FatalSrc (ErrDType (OtherDType 8 ''CLASSREFDTYPE''))
           ''Unexpected node data type in toggle coverage generation: CLASSREFDTYPE'')
   \<and> toggleFatal (FatalSrc (ErrDType (OtherDType 8 ''CLASSREFDTYPE''))
           ''Unexpected node data type in toggle coverage generation: CLASSREFDTYPE'')"
proof -
  have h: "\<forall>n\<in>set exBadNetlist. isModule n" by (simp add: exBadNetlist_def)
  have c: "coverage exOpt exBadNetlist
       = Inl (FatalSrc (ErrDType (OtherDType 8 ''CLASSREFDTYPE''))
           ''Unexpected node data type in toggle coverage generation: CLASSREFDTYPE'')"
    by code_simp
  from unexpected_dtype_fatal[of exOpt] h c
  have "toggleFatal (FatalSrc (ErrDType (OtherDType 8 ''CLASSREFDTYPE''))
           ''Unexpected node data type in toggle coverage generation: CLASSREFDTYPE'')"
    by blast
  with h c show ?thesis by (simp only: list_all_iff simp_thms)
qed

text \<open>
  C1, at a variable whose type is an unpacked struct with one member: the toggle record
  of the member carries two references that both point into the original variable; no
  reference points into the shadow variable.
\<close>

theorem unpacked_struct_refs_both_original:
  "map (map_prod rootVar rootVar)
     (toggleRefs (toggleOutput (toggleVar exOpt exFl exStructVar exState)))
     = [(Some exStructVar, Some exStructVar)]"
  by code_simp

text \<open>
  C5. A visit of a conditional that returns leaves the scope state as it was. When the
  scope was enabled, the then-branch and the else-branch have each been visited in a
  scope of their own, and the scope of the else-branch was entered enabled and with the
  parent's module flag, whatever the then-branch did to its own scope.
\<close>

theorem if_restores_scope_state:
  assumes "visit opt (Node (KIf user1) fl condp thensp elsesp o4) st = Inr (r, st')"
  shows "m_state st' = m_state st
         \<and> (m_on (m_state st) \<longrightarrow>
              (\<exists>thensp' st1 elsesp' st3.
                 iterateAndNextNull opt thensp (createHandle fl st) = Inr (thensp', st1)
                 \<and> iterateAndNextNull opt (markElsif thensp elsesp)
                       (createHandle fl ((lineTrack opt fl st1)\<lparr> m_state := m_state st \<rparr>))
                     = Inr (elsesp', st3)
                 \<and> m_on (m_state (createHandle fl ((lineTrack opt fl st1)\<lparr> m_state := m_state st \<rparr>)))
                 \<and> m_inModOff (m_state (createHandle fl ((lineTrack opt fl st1)\<lparr> m_state := m_state st \<rparr>)))
                     = m_inModOff (m_state st)))"
proof (cases "m_on (m_state st)")
  case False
  with assms show ?thesis by simp
next
  case True
  from assms True obtain thensp' st1
    where t: "iterateAndNextNull opt thensp (createHandle fl st) = Inr (thensp', st1)"
    by (auto simp: Let_def split: sum.splits)
  from assms True t obtain elsesp' st3
    where e: "iterateAndNextNull opt (markElsif thensp elsesp)
                 (createHandle fl ((lineTrack opt fl st1)\<lparr> m_state := m_state st \<rparr>))
               = Inr (elsesp', st3)"
    by (auto simp: Let_def split: sum.splits)
  from assms True t e have "m_state st' = m_state st"
    by (auto simp: Let_def split: sum.splits)
  moreover have "m_on (m_state (createHandle fl ((lineTrack opt fl st1)\<lparr> m_state := m_state st \<rparr>)))"
    and "m_inModOff (m_state (createHandle fl ((lineTrack opt fl st1)\<lparr> m_state := m_state st \<rparr>)))
           = m_inModOff (m_state st)"
    by (simp_all add: createHandle_def)
  ultimately show ?thesis using t e by blast
qed

theorem if_restores_scope_state_witness:
  "visitOutput (visit exOpt (Node (KIf False) exFl [] [exStop] [exStmt] []) exState)
     = [Node (KIf False) exFl [] [exStop]
          [exStmt, Node (KCoverInc (lineDecl ''v_line'' exMod ''else'' ''7-8'' 1)) exFl [] [] [] []] []]
   \<and> m_on (m_state exState)
   \<and> m_state (snd (projr (visit exOpt (Node (KIf False) exFl [] [exStop] [exStmt] []) exState)))
       = m_state exState"
proof -
  have ni: "\<not> isl (visit exOpt (Node (KIf False) exFl [] [exStop] [exStmt] []) exState)"
    by code_simp
  define r where "r = fst (projr (visit exOpt (Node (KIf False) exFl [] [exStop] [exStmt] []) exState))"
  define st' where "st' = snd (projr (visit exOpt (Node (KIf False) exFl [] [exStop] [exStmt] []) exState))"
  have v: "visit exOpt (Node (KIf False) exFl [] [exStop] [exStmt] []) exState = Inr (r, st')"
    unfolding r_def st'_def by (simp only: prod.collapse sum.collapse(2)[OF ni])
  have o: "visitOutput (visit exOpt (Node (KIf False) exFl [] [exStop] [exStmt] []) exState)
     = [Node (KIf False) exFl [] [exStop]
          [exStmt, Node (KCoverInc (lineDecl ''v_line'' exMod ''else'' ''7-8'' 1)) exFl [] [] [] []] []]"
    by code_simp
  have m: "m_on (m_state exState)" by (simp add: exState_def createHandle_def)
  from if_restores_scope_state[OF v] have "m_state st' = m_state exState" by blast
  with o m show ?thesis by (simp only: st'_def simp_thms)
qed





text \<open>
  C4. A conditional whose then-branch exists and whose else-branch is exactly one
  conditional with nothing after it, visited in an enabled scope inside a module: the
  else-branch comes back as the visit of that (now marked) conditional left it, with
  nothing inserted by this link, and the then-branch receives at its end one increment of
  page \<open>v_line\<close> tagged \<open>elsif\<close> with offset 0 when its scope still has line coverage
  active, and nothing otherwise. No increment of page \<open>v_branch\<close> is inserted.
\<close>

theorem elsif_link_line_coverage:
  assumes "m_on (m_state st)" and "m_modp st = Some modp"
    and "isElsif thensp elsesp"
    and "iterateAndNextNull opt thensp (createHandle fl st) = Inr (thensp', st1)"
    and "iterateAndNextNull opt (markElsif thensp elsesp)
           (createHandle fl ((lineTrack opt fl st1)\<lparr> m_state := m_state st \<rparr>)) = Inr (elsesp', st3)"
  shows "\<exists>incif st'.
           visit opt (Node (KIf user1) fl condp thensp elsesp o4) st
             = Inr ([Node (KIf user1) fl condp (thensp' @ incif) elsesp' o4], st')
           \<and> (if lineCoverageOn opt (m_state (lineTrack opt fl st1)) fl
                then isIncrement incif fl
                       (lineDecl ''v_line'' modp ''elsif''
                          (linesCov st3 (m_state (lineTrack opt fl st1))) 0)
                else incif = [])"
proof -
  from if_branch_states(1)[OF assms(4) assms(5)] assms(2)
  have m: "m_modp (st3\<lparr> m_state := m_state st \<rparr>) = Some modp" by simp
  have fc: "(\<not> user1 \<and> isElsif thensp elsesp) \<or> (user1 \<and> isElsif thensp elsesp)"
    using assms(3) by simp
  from ifCover_elsif[OF m fc, of opt fl "user1 \<and> \<not> isElsif thensp elsesp \<and> elsesp \<noteq> []"
      "m_state (lineTrack opt fl st1)" "m_state st3" thensp' elsesp']
  obtain incif st4 where
    c: "ifCover opt fl (\<not> user1 \<and> isElsif thensp elsesp) (user1 \<and> isElsif thensp elsesp)
             (user1 \<and> \<not> isElsif thensp elsesp \<and> elsesp \<noteq> [])
             (m_state (lineTrack opt fl st1)) (m_state st3) thensp' elsesp'
             (st3\<lparr> m_state := m_state st \<rparr>) = Inr (thensp' @ incif, elsesp', st4)"
    and i: "if lineCoverageOn opt (m_state (lineTrack opt fl st1)) fl
            then isIncrement incif fl (lineDecl ''v_line'' modp ''elsif''
                   (linesCov (st3\<lparr> m_state := m_state st \<rparr>) (m_state (lineTrack opt fl st1))) 0)
            else incif = []"
    by blast
  have "visit opt (Node (KIf user1) fl condp thensp elsesp o4) st
          = Inr ([Node (KIf user1) fl condp (thensp' @ incif) elsesp' o4],
                 st4\<lparr> m_state := m_state st \<rparr>)"
    by (simp only: visit_If_on[OF assms(1) assms(4) assms(5)] c sum.case prod.case)
  with i show ?thesis by (auto simp: linesCov_def split: if_splits)
qed

theorem elsif_link_line_coverage_witness:
  "(\<exists>incif st'.
      visit exOpt (Node (KIf False) exFl [] [exStmt] [Node (KIf False) exFl [] [exStmt] [exStmt] []] [])
          exState
        = Inr ([Node (KIf False) exFl [] ([exStmt] @ incif)
                  (fst (projr (iterateAndNextNull exOpt
                     (markElsif [exStmt] [Node (KIf False) exFl [] [exStmt] [exStmt] []])
                     (createHandle exFl ((lineTrack exOpt exFl
                        (snd (projr (iterateAndNextNull exOpt [exStmt] (createHandle exFl exState)))))
                        \<lparr> m_state := m_state exState \<rparr>))))) []], st'))
   \<and> visitOutput (visit exOpt
         (Node (KIf False) exFl [] [exStmt] [Node (KIf False) exFl [] [exStmt] [exStmt] []] []) exState)
       = [Node (KIf False) exFl []
            [exStmt, Node (KCoverInc (lineDecl ''v_line'' exMod ''elsif'' ''7-8'' 0)) exFl [] [] [] []]
            [Node (KIf True) exFl []
               [exStmt, Node (KCoverInc (lineDecl ''v_line'' exMod ''if'' ''7-8'' 0)) exFl [] [] [] []]
               [exStmt, Node (KCoverInc (lineDecl ''v_line'' exMod ''else'' ''7-8'' 1)) exFl [] [] [] []]
               []]
            []]"
proof -
  define st1 where "st1 = snd (projr (iterateAndNextNull exOpt [exStmt] (createHandle exFl exState)))"
  define es where "es = iterateAndNextNull exOpt
                     (markElsif [exStmt] [Node (KIf False) exFl [] [exStmt] [exStmt] []])
                     (createHandle exFl ((lineTrack exOpt exFl st1)\<lparr> m_state := m_state exState \<rparr>))"
  have h1: "m_on (m_state exState)" by code_simp
  have h2: "m_modp exState = Some exMod" by code_simp
  have h3: "isElsif [exStmt] [Node (KIf False) exFl [] [exStmt] [exStmt] []]" by code_simp
  have h4: "iterateAndNextNull exOpt [exStmt] (createHandle exFl exState) = Inr ([exStmt], st1)"
    unfolding st1_def by (rule Inr_fst_snd; code_simp)
  have "\<not> isl es" unfolding es_def st1_def by code_simp
  then have h5: "es = Inr (fst (projr es), snd (projr es))" by (rule Inr_collapse)
  have o: "visitOutput (visit exOpt
         (Node (KIf False) exFl [] [exStmt] [Node (KIf False) exFl [] [exStmt] [exStmt] []] []) exState)
       = [Node (KIf False) exFl []
            [exStmt, Node (KCoverInc (lineDecl ''v_line'' exMod ''elsif'' ''7-8'' 0)) exFl [] [] [] []]
            [Node (KIf True) exFl []
               [exStmt, Node (KCoverInc (lineDecl ''v_line'' exMod ''if'' ''7-8'' 0)) exFl [] [] [] []]
               [exStmt, Node (KCoverInc (lineDecl ''v_line'' exMod ''else'' ''7-8'' 1)) exFl [] [] [] []]
               []]
            []]"
    by code_simp
  from elsif_link_line_coverage[OF h1 h2 h3 h4 h5[unfolded es_def], of False "[]" "[]"]
  have "\<exists>incif st'.
      visit exOpt (Node (KIf False) exFl [] [exStmt] [Node (KIf False) exFl [] [exStmt] [exStmt] []] [])
          exState
        = Inr ([Node (KIf False) exFl [] ([exStmt] @ incif) (fst (projr es)) []], st')"
    unfolding es_def by blast
  from this o show ?thesis unfolding es_def st1_def by (rule conjI)
qed


text \<open>
  C10, as amended. A conditional marked as an else-if continuation that has no
  else-branch, visited in an enabled scope inside a module: when the scope of its
  then-branch still has line coverage active (the scope of the absent else-branch then
  has it too), the then-branch receives at its end one increment of page \<open>v_branch\<close>
  tagged \<open>if\<close> with offset 0, and a new else-branch is made of one increment of page
  \<open>v_branch\<close> tagged \<open>else\<close> with offset 1. That increment is all the else-branch
  holds, except that with trace coverage on, in a module that is not a class, the update
  of the increment's trace counter follows it.
\<close>

theorem marked_if_without_else_branch_coverage:
  assumes "m_on (m_state st)" and "m_modp st = Some modp"
    and "iterateAndNextNull opt thensp (createHandle fl st) = Inr (thensp', st1)"
    and "lineCoverageOn opt (m_state (lineTrack opt fl st1)) fl"
  shows "\<exists>incif incelse st'.
           visit opt (Node (KIf True) fl condp thensp [] o4) st
             = Inr ([Node (KIf True) fl condp (thensp' @ incif) incelse o4], st')
           \<and> isIncrement incif fl
               (lineDecl ''v_branch'' modp ''if''
                  (linesCov (lineTrack opt fl st1) (m_state (lineTrack opt fl st1))) 0)
           \<and> isIncrement incelse fl
               (lineDecl ''v_branch'' modp ''else''
                  (linesCov (lineTrack opt fl st1)
                     (m_state (createHandle fl ((lineTrack opt fl st1)\<lparr> m_state := m_state st \<rparr>)))) 1)
           \<and> length incelse = (if traceCoverage opt \<and> \<not> mod_isClass modp then 2 else 1)"
proof -
  let ?s2 = "createHandle fl ((lineTrack opt fl st1)\<lparr> m_state := m_state st \<rparr>)"
  have ne: "\<not> isElsif thensp []" by (simp add: isElsif_def)
  have mk: "markElsif thensp [] = []" by (simp add: markElsif_def)
  have e: "iterateAndNextNull opt (markElsif thensp []) ?s2 = Inr ([], ?s2)" by (simp add: mk)
  from if_branch_states(1,2)[OF assms(3) e[unfolded mk]] assms(2)
  have m: "m_modp (?s2\<lparr> m_state := m_state st \<rparr>) = Some modp"
    and io: "m_inModOff (m_state (lineTrack opt fl st1)) = m_inModOff (m_state st)" by simp_all
  from assms(4) io have elseOn: "lineCoverageOn opt (m_state ?s2) fl"
    by (simp add: lineCoverageOn_def createHandle_def)
  from ifCover_branch[OF m _ _ _ assms(4) elseOn, of "\<not> True \<and> isElsif thensp []"
      "True \<and> isElsif thensp []" "True \<and> \<not> isElsif thensp [] \<and> [] \<noteq> ([] :: node list)" thensp' "[]"]
    ne
  obtain incif incelse st4 where
    c: "ifCover opt fl (\<not> True \<and> isElsif thensp []) (True \<and> isElsif thensp [])
             (True \<and> \<not> isElsif thensp [] \<and> [] \<noteq> ([] :: node list))
             (m_state (lineTrack opt fl st1)) (m_state ?s2) thensp' []
             (?s2\<lparr> m_state := m_state st \<rparr>) = Inr (thensp' @ incif, [] @ incelse, st4)"
    and i1: "isIncrement incif fl (lineDecl ''v_branch'' modp ''if''
               (linesCov (?s2\<lparr> m_state := m_state st \<rparr>) (m_state (lineTrack opt fl st1))) 0)"
    and i2: "isIncrement incelse fl (lineDecl ''v_branch'' modp ''else''
               (linesCov (?s2\<lparr> m_state := m_state st \<rparr>) (m_state ?s2)) 1)"
    and l: "length incelse = (if traceCoverage opt \<and> \<not> mod_isClass modp then 2 else 1)"
    by auto
  have "visit opt (Node (KIf True) fl condp thensp [] o4) st
          = Inr ([Node (KIf True) fl condp (thensp' @ incif) ([] @ incelse) o4],
                 st4\<lparr> m_state := m_state st \<rparr>)"
    by (simp only: visit_If_on[OF assms(1) assms(3) e] c sum.case prod.case)
  moreover have "linesCov (?s2\<lparr> m_state := m_state st \<rparr>) = linesCov (lineTrack opt fl st1)"
    by (simp add: linesCov_def createHandle_def fun_eq_iff)
  ultimately show ?thesis using i1 i2 l by auto
qed

theorem marked_if_without_else_branch_coverage_witness:
  "(\<exists>incif incelse st'.
      visit exOptTrace (Node (KIf True) exFl [] [exStmt] [] []) exState
        = Inr ([Node (KIf True) exFl [] ([exStmt] @ incif) incelse []], st')
      \<and> length incelse = 2)
   \<and> map isAssign (elsespOf (hd (visitOutput
         (visit exOptTrace (Node (KIf True) exFl [] [exStmt] [] []) exState)))) = [False, True]
   \<and> elsespOf (hd (visitOutput (visit exOpt (Node (KIf True) exFl [] [exStmt] [] []) exState)))
       = [Node (KCoverInc (lineDecl ''v_branch'' exMod ''else'' [] 1)) exFl [] [] [] []]"
proof -
  define st1 where "st1 = snd (projr (iterateAndNextNull exOptTrace [exStmt] (createHandle exFl exState)))"
  have h1: "m_on (m_state exState)" by code_simp
  have h2: "m_modp exState = Some exMod" by code_simp
  have h3: "iterateAndNextNull exOptTrace [exStmt] (createHandle exFl exState) = Inr ([exStmt], st1)"
    unfolding st1_def by (rule Inr_fst_snd; code_simp)
  have h4: "lineCoverageOn exOptTrace (m_state (lineTrack exOptTrace exFl st1)) exFl"
    unfolding st1_def by code_simp
  have t: "traceCoverage exOptTrace \<and> \<not> mod_isClass exMod" by code_simp
  have o1: "map isAssign (elsespOf (hd (visitOutput
         (visit exOptTrace (Node (KIf True) exFl [] [exStmt] [] []) exState)))) = [False, True]"
    by code_simp
  have o2: "elsespOf (hd (visitOutput (visit exOpt (Node (KIf True) exFl [] [exStmt] [] []) exState)))
       = [Node (KCoverInc (lineDecl ''v_branch'' exMod ''else'' [] 1)) exFl [] [] [] []]"
    by code_simp
  from marked_if_without_else_branch_coverage[OF h1 h2 h3 h4, of "[]" "[]"]
  obtain incif incelse st' where
    v: "visit exOptTrace (Node (KIf True) exFl [] [exStmt] [] []) exState
        = Inr ([Node (KIf True) exFl [] ([exStmt] @ incif) incelse []], st')"
    and l: "length incelse = (if traceCoverage exOptTrace \<and> \<not> mod_isClass exMod then 2 else 1)"
    by blast
  from l t have "length incelse = 2" by simp
  with v have "\<exists>incif incelse st'.
      visit exOptTrace (Node (KIf True) exFl [] [exStmt] [] []) exState
        = Inr ([Node (KIf True) exFl [] ([exStmt] @ incif) incelse []], st')
      \<and> length incelse = 2"
    by blast
  from this o1 o2 show ?thesis by (intro conjI)
qed

theorem marked_if_else_not_only_increment_counterexample:
  "map isAssign (elsespOf (hd (visitOutput
      (visit exOptTrace (Node (KIf True) exFl [] [exStmt] [] []) exState)))) = [False, True]"
  by code_simp

lemma off_pragma_disables:
  assumes "\<exists>n\<in>set ns. kind n = KPragma COVERAGE_BLOCK_OFF"
    and "iterateAndNextNull opt ns st = Inr (r, st')"
  shows "\<not> m_on (m_state st')"
  using assms
proof (induction ns arbitrary: st r)
  case Nil
  then show ?case by simp
next
  case (Cons n ns)
  from Cons.prems(2) obtain r1 s1 r2 where v: "visit opt n st = Inr (r1, s1)"
    and i: "iterateAndNextNull opt ns s1 = Inr (r2, st')"
    by (auto split: sum.splits)
  show ?case
  proof (cases "kind n = KPragma COVERAGE_BLOCK_OFF")
    case True
    then obtain fl o1 o2 o3 o4 where "n = Node (KPragma COVERAGE_BLOCK_OFF) fl o1 o2 o3 o4"
      by (cases n) auto
    with v have "\<not> m_on (m_state s1)" by auto
    with iterateAndNextNull_frame[OF i] show ?thesis by (simp add: frame_def)
  next
    case False
    with Cons.prems(1) have "\<exists>n\<in>set ns. kind n = KPragma COVERAGE_BLOCK_OFF" by auto
    from Cons.IH[OF this i] show ?thesis .
  qed
qed

subsection \<open>What leaves a scope disabled: the traversal\<close>

lemma onR_simps [simp]:
  "onR off st (Inl e) = True"
  "onR off st (Inr (x, st')) = (m_on (m_state st') = (m_on (m_state st) \<and> \<not> off))"
  by (simp_all add: onR_def)

lemma onR_bind:
  assumes "onR off1 st m"
    and "\<And>x st1. m = Inr (x, st1) \<Longrightarrow> onR off2 st1 (f x st1)"
    and "off = (off1 \<or> off2)"
  shows "onR off st (case m of Inl e \<Rightarrow> Inl e | Inr (x, st1) \<Rightarrow> f x st1)"
proof (cases m)
  case (Inl e)
  then show ?thesis by simp
next
  case (Inr p)
  obtain x st1 where p: "p = (x, st1)" by (cases p)
  from assms(1) Inr p have a: "m_on (m_state st1) = (m_on (m_state st) \<and> \<not> off1)" by simp
  from assms(2)[of x st1] Inr p have ok: "onR off2 st1 (f x st1)" by simp
  have "onR off st (f x st1)"
  proof (cases "f x st1")
    case (Inl e)
    then show ?thesis by simp
  next
    case r: (Inr q)
    obtain y st2 where "q = (y, st2)" by (cases q)
    with ok r a assms(3) show ?thesis by auto
  qed
  with Inr p show ?thesis by simp
qed

lemma onR_from:
  "onR off s res \<Longrightarrow> m_state s = m_state st \<Longrightarrow> onR off st res"
  by (cases res) (auto simp: onR_def)

lemma toggleVar_state:
  assumes a: "toggleVar opt fl v st = Inr st'"
  shows "m_state st' = m_state st"
proof -
  let ?go = "m_modp st \<noteq> None \<and> \<not> m_inToggleOff st \<and> \<not> m_inModOff (m_state st)
               \<and> coverageOn fl \<and> coverageToggle opt \<and> varIgnoreToggle opt v = None"
  show ?thesis
  proof (cases ?go)
    case False
    with a have "st' = st" by (auto simp: toggleVar_def split: if_splits option.splits)
    then show ?thesis by simp
  next
    case True
    define chg where "chg = v\<lparr> v_name := ''__Vtogcov__'' @ v_shortName v,
        v_shortName := ''__Vtogcov__'' @ v_shortName v,
        v_prettyName := ''__Vtogcov__'' @ v_shortName v, v_varType := MODULETEMP,
        v_isToggleCoverable := False, v_trace := False \<rparr>"
    define st1 where "st1 = addModStmt (Node (KVar chg) (fl\<lparr> warnOffUnusedSignal := True \<rparr>)
                               [] [] [] []) st"
    define newvec where "newvec = \<lparr> m_comment = [], m_varRefp = VarRef v READ,
                               m_chgRefp = VarRef chg WRITE \<rparr>"
    have eq: "toggleVar opt fl v st = toggleVarRecurse opt (v_dtype v) 0 newvec fl v chg st1"
      using True by (simp add: toggleVar_def Let_def chg_def st1_def newvec_def)
    have "toggleOk st1 (toggleVarRecurse opt (v_dtype v) 0 newvec fl v chg st1)"
      by (rule toggleOk_toggleVarRecurse)
    with a eq show ?thesis
      by (auto simp: toggleOk_def st1_def addModStmt_def)
  qed
qed

lemma lineTrack_state: "m_state (lineTrack opt fl st) = m_state st"
  by (simp add: lineTrack_def)

text \<open>A node with a scope of its own leaves the scope state as it found it.\<close>

lemma visit_restores:
  assumes "ownScope k" and "visit opt (Node k fl o1 o2 o3 o4) st = Inr (r, st')"
  shows "m_state st' = m_state st"
proof (cases k)
  case (KModule name isTop isClass)
  with assms(2) show ?thesis
    by (auto simp: Let_def split: sum.splits node.splits simp del: iterateChildren.simps)
next
  case KProcedure
  with assms(2) show ?thesis
    by (auto simp: Let_def split: sum.splits simp del: iterateChildren.simps)
next
  case KWhile
  with assms(2) show ?thesis
    by (auto simp: Let_def split: sum.splits simp del: iterateChildren.simps)
next
  case (KFTask dpiImport)
  with assms(2) show ?thesis
    by (auto simp: Let_def split: sum.splits if_splits simp del: iterateChildren.simps)
next
  case (KIf user1)
  with assms(2) show ?thesis
    by (auto simp: Let_def split: sum.splits if_splits)
next
  case KCaseItem
  with assms(2) show ?thesis
    by (auto simp: Let_def split: sum.splits if_splits)
next
  case KCover
  with assms(2) show ?thesis
    by (auto simp: Let_def split: sum.splits node.splits simp del: iterateChildren.simps)
qed (use assms(1) in simp_all)

lemma onR_restores:
  assumes "ownScope k"
  shows "onR (disables (Node k fl o1 o2 o3 o4)) st (visit opt (Node k fl o1 o2 o3 o4) st)"
proof (cases "visit opt (Node k fl o1 o2 o3 o4) st")
  case (Inl e)
  then show ?thesis by (simp only: onR_simps)
next
  case (Inr p)
  obtain r st' where p: "p = (r, st')" by (cases p)
  from visit_restores[OF assms Inr[unfolded p]] have s: "m_state st' = m_state st" .
  from assms have "k \<noteq> KPragma COVERAGE_BLOCK_OFF" and "k \<noteq> KStop" by auto
  with assms have "\<not> disables (Node k fl o1 o2 o3 o4)" by simp
  with s show ?thesis unfolding Inr p by (simp only: onR_simps) simp
qed

lemma on_generic:
  assumes "onR (childrenDisable (Node k fl o1 o2 o3 o4)) st (iterateChildren opt (Node k fl o1 o2 o3 o4) st)"
    and "\<not> ownScope k" and "k \<noteq> KPragma COVERAGE_BLOCK_OFF" and "k \<noteq> KStop"
  shows "onR (disables (Node k fl o1 o2 o3 o4)) st
           (case iterateChildren opt (Node k fl o1 o2 o3 o4) st of
              Inl e \<Rightarrow> Inl e
            | Inr (nodep', st1) \<Rightarrow> Inr ([nodep'], lineTrack opt fl' st1))"
  apply (rule onR_bind[OF assms(1), where ?off2.0 = False])
  using assms(2-4) apply (simp_all add: list_ex_iff lineTrack_state del: iterateChildren.simps)
  done

lemma on_Begin:
  assumes IH: "\<And>x xa.
          \<lbrakk>x = st\<lparr>m_inToggleOff := True\<rparr>;
           xa = (if name \<noteq> []
            then x\<lparr>m_beginHier :=
                     m_beginHier x @ (if m_beginHier x \<noteq> [] then ''.'' else []) @ name\<rparr>
            else x)\<rbrakk>
          \<Longrightarrow> onR (childrenDisable (Node (KBegin name) fl o1 o2 o3 o4))
                xa (iterateChildren opt (Node (KBegin name) fl o1 o2 o3 o4) xa)"
  shows "onR (disables (Node (KBegin name) fl o1 o2 o3 o4)) st
           (visit opt (Node (KBegin name) fl o1 o2 o3 o4) st)"
proof -
  define s1 where "s1 = st\<lparr> m_inToggleOff := True \<rparr>"
  define s2 where "s2 = (if name \<noteq> []
                 then s1\<lparr> m_beginHier := m_beginHier s1
                                @ (if m_beginHier s1 \<noteq> [] then ''.'' else []) @ name \<rparr>
                 else s1)"
  have eq: "visit opt (Node (KBegin name) fl o1 o2 o3 o4) st =
      (case iterateChildren opt (Node (KBegin name) fl o1 o2 o3 o4) s2 of
           Inl e \<Rightarrow> Inl e
         | Inr (nodep', st3) \<Rightarrow>
             Inr ([nodep'], (lineTrack opt fl st3)\<lparr> m_beginHier := m_beginHier st,
                                                    m_inToggleOff := m_inToggleOff st \<rparr>))"
    by (simp add: Let_def s2_def s1_def del: iterateChildren.simps)
  have m2: "m_state s2 = m_state st" by (simp add: s2_def s1_def)
  have ok2: "onR (childrenDisable (Node (KBegin name) fl o1 o2 o3 o4))
                s2 (iterateChildren opt (Node (KBegin name) fl o1 o2 o3 o4) s2)"
    unfolding s2_def s1_def by (rule IH[OF refl refl])
  show ?thesis
  proof (cases "iterateChildren opt (Node (KBegin name) fl o1 o2 o3 o4) s2")
    case (Inl e)
    then show ?thesis unfolding eq by simp
  next
    case (Inr p)
    obtain n' st3 where p: "p = (n', st3)" by (cases p)
    from ok2 Inr p m2 show ?thesis unfolding eq
      by (simp add: list_ex_iff lineTrack_state del: iterateChildren.simps)
  qed
qed

text \<open>
  Whether a visit leaves its scope enabled: it does exactly when the scope was enabled
  and the statement does not disable it.
\<close>

lemma visit_on:
  "onR (disables n) st (visit opt n st)"
  "onR (childrenDisable n) st (iterateChildren opt n st)"
  "onR False st (iterateProcedure opt n st)"
  "onR (list_ex disables ns) st (iterateAndNextNull opt ns st)"
proof (induction opt n st and opt n st and opt n st and opt ns st
       rule: visit_iterateChildren_iterateProcedure_iterateAndNextNull.induct)
  case (1 opt st)
  then show ?case by simp
next
  case (2 opt nodep nextp st)
  show ?case
    apply (simp only: iterateAndNextNull.simps)
    apply (rule onR_bind[where ?off1.0 = "disables nodep" and ?off2.0 = "list_ex disables nextp"])
      apply (rule 2(1))
     apply (rule onR_bind[where ?off1.0 = "list_ex disables nextp" and ?off2.0 = False])
       apply (erule 2(2)[OF _ refl])
      apply simp_all
    done
next
  case (3 opt k fl o1 o2 o3 o4 st)
  show ?case
    apply (simp only: iterateChildren.simps childrenDisable.simps)
    apply (rule onR_bind[where ?off1.0 = "list_ex disables o1"
                           and ?off2.0 = "list_ex disables (o2 @ o3 @ o4)"])
      apply (rule 3(1))
     apply (rule onR_bind[where ?off1.0 = "list_ex disables o2"
                            and ?off2.0 = "list_ex disables (o3 @ o4)"])
       apply (erule 3(2)[OF _ refl])
      apply (rule onR_bind[where ?off1.0 = "list_ex disables o3"
                             and ?off2.0 = "list_ex disables o4"])
        apply (erule 3(3)[OF _ refl], assumption, rule refl)
       apply (rule onR_bind[where ?off1.0 = "list_ex disables o4" and ?off2.0 = False])
         apply (erule 3(4)[OF _ refl], assumption, rule refl, assumption, rule refl)
        apply simp_all
    done
next
  case (4 opt nodep st)
  show ?case
    by (cases nodep) (auto simp: Let_def onR_def split: sum.splits simp del: iterateChildren.simps)
next
  case (5 opt name isTop isClass fl o1 o2 o3 o4 st)
  show ?case by (rule onR_restores) simp
next
  case (6 opt fl o1 o2 o3 o4 st)
  show ?case by (rule onR_restores) simp
next
  case (7 opt fl o1 o2 o3 o4 st)
  show ?case by (rule onR_restores) simp
next
  case (8 opt dpiImport fl o1 o2 o3 o4 st)
  show ?case by (rule onR_restores) simp
next
  case (9 opt v fl o1 o2 o3 o4 st)
  show ?case
    apply (simp only: visit.simps)
    apply (rule onR_bind[OF 9, where ?off2.0 = False])
    subgoal for x st1
      by (cases "toggleVar opt fl v st1")
         (auto dest: toggleVar_state simp del: iterateChildren.simps)
    apply (simp add: list_ex_iff)
    done
next
  case (10 opt user1 fl condp thensp elsesp o4 st)
  show ?case by (rule onR_restores) simp
next
  case (11 opt fl condsp stmtsp o3 o4 st)
  show ?case by (rule onR_restores) simp
next
  case (12 opt fl o1 o2 coverincsp o4 st)
  show ?case by (rule onR_restores) simp
next
  case (13 opt fl o1 o2 o3 o4 st)
  then show ?case by simp
next
  case (14 opt fl o1 o2 o3 o4 st)
  then show ?case by simp
next
  case (15 opt fl o1 o2 o3 o4 st)
  show ?case
  proof (cases "m_on (m_state st)")
    case True
    show ?thesis
      by (simp only: visit.simps True if_True) (rule on_generic[OF 15[OF True]], simp_all)
  next
    case False
    then show ?thesis by (simp add: lineTrack_state)
  qed
next
  case (16 opt name fl o1 o2 o3 o4 st)
  show ?case by (rule on_Begin) (rule 16; assumption)
qed ((simp only: visit.simps)?, rule on_generic, assumption, simp, simp, simp)+

lemma body_on:
  assumes "iterateAndNextNull opt ns st = Inr (r, st')"
  shows "m_on (m_state st') = (m_on (m_state st) \<and> \<not> list_ex disables ns)"
  using visit_on(4)[of ns st opt] assms by simp

text \<open>
  C6, as amended. A case arm for which the parent scope has no active line coverage is
  left as it is and no scope is entered. Otherwise, inside a module, the arm's statements
  are visited in a new scope and the arm receives, at the end of its statement list, one
  increment of page \<open>v_line\<close> tagged \<open>case\<close> exactly when line coverage is still
  active afterwards, which is exactly when no statement of the arm disables the scope:
  none is or holds a scope-off pragma or a stop statement outside every nested node that
  has a scope of its own (a conditional, a case arm, a procedure, a loop, a task, a
  module, a cover statement). A scope-off pragma inside such a nested node does not
  reach the arm. The scope state after the arm is the one before it, so the arms that
  follow are not affected.
\<close>

theorem case_arm_coverage:
  "(\<not> lineCoverageOn opt (m_state st) fl \<longrightarrow>
      visit opt (Node KCaseItem fl condsp stmtsp o3 o4) st
        = Inr ([Node KCaseItem fl condsp stmtsp o3 o4], st))
   \<and> (lineCoverageOn opt (m_state st) fl \<longrightarrow> m_modp st = Some modp \<longrightarrow>
        iterateAndNextNull opt stmtsp (createHandle fl st) = Inr (stmtsp', st1) \<longrightarrow>
        (\<exists>newp st'.
           visit opt (Node KCaseItem fl condsp stmtsp o3 o4) st
             = Inr ([Node KCaseItem fl condsp (stmtsp' @ newp) o3 o4], st')
           \<and> m_state st' = m_state st
           \<and> (if lineCoverageOn opt (m_state st1) fl
                then isIncrement newp fl
                       (lineDecl ''v_line'' modp ''case''
                          (linesCov (lineTrack opt fl st1) (m_state st1)) 0)
                else newp = [])
           \<and> (lineCoverageOn opt (m_state st1) fl \<longleftrightarrow> \<not> list_ex disables stmtsp)
           \<and> ((\<exists>n\<in>set stmtsp. kind n = KPragma COVERAGE_BLOCK_OFF) \<longrightarrow> newp = [])))"
proof (intro conjI impI)
  assume "\<not> lineCoverageOn opt (m_state st) fl"
  then show "visit opt (Node KCaseItem fl condsp stmtsp o3 o4) st
        = Inr ([Node KCaseItem fl condsp stmtsp o3 o4], st)" by simp
next
  assume act: "lineCoverageOn opt (m_state st) fl" and modp: "m_modp st = Some modp"
    and body: "iterateAndNextNull opt stmtsp (createHandle fl st) = Inr (stmtsp', st1)"
  from iterateAndNextNull_frame[OF body] modp
  have m1: "m_modp (lineTrack opt fl st1) = Some modp"
    by (simp add: frame_def createHandle_def lineTrack_def)
  have ms: "m_state (lineTrack opt fl st1) = m_state st1" by (simp add: lineTrack_def)
  have off: "(\<exists>n\<in>set stmtsp. kind n = KPragma COVERAGE_BLOCK_OFF) \<Longrightarrow>
               \<not> lineCoverageOn opt (m_state st1) fl"
    using off_pragma_disables[OF _ body] by (simp add: lineCoverageOn_def)
  from body_on[OF body] have "m_on (m_state st1) = (\<not> list_ex disables stmtsp)"
    by (simp add: createHandle_def)
  moreover from iterateAndNextNull_frame[OF body]
  have "m_inModOff (m_state st1) = m_inModOff (m_state st)"
    by (simp add: frame_def createHandle_def)
  ultimately have dis: "lineCoverageOn opt (m_state st1) fl \<longleftrightarrow> \<not> list_ex disables stmtsp"
    using act by (simp add: lineCoverageOn_def)
  show "\<exists>newp st'.
           visit opt (Node KCaseItem fl condsp stmtsp o3 o4) st
             = Inr ([Node KCaseItem fl condsp (stmtsp' @ newp) o3 o4], st')
           \<and> m_state st' = m_state st
           \<and> (if lineCoverageOn opt (m_state st1) fl
                then isIncrement newp fl
                       (lineDecl ''v_line'' modp ''case''
                          (linesCov (lineTrack opt fl st1) (m_state st1)) 0)
                else newp = [])
           \<and> (lineCoverageOn opt (m_state st1) fl \<longleftrightarrow> \<not> list_ex disables stmtsp)
           \<and> ((\<exists>n\<in>set stmtsp. kind n = KPragma COVERAGE_BLOCK_OFF) \<longrightarrow> newp = [])"
  proof (cases "lineCoverageOn opt (m_state st1) fl")
    case True
    from lineCoverInc_result[OF m1, of opt fl "''v_line''" "''case''" "m_state st1" 0]
    obtain newp st2 where
      1: "lineCoverInc opt fl ''v_line'' ''case'' (m_state st1) 0 (lineTrack opt fl st1) = Inr (newp, st2)"
      and i: "isIncrement newp fl (lineDecl ''v_line'' modp ''case''
                 (linesCov (lineTrack opt fl st1) (m_state st1)) 0)" by blast
    have "visit opt (Node KCaseItem fl condsp stmtsp o3 o4) st
             = Inr ([Node KCaseItem fl condsp (stmtsp' @ newp) o3 o4], st2\<lparr> m_state := m_state st \<rparr>)"
      using act body True 1 by (simp add: caseItemCover_def Let_def ms)
    with i True off dis show ?thesis by auto
  next
    case False
    have "visit opt (Node KCaseItem fl condsp stmtsp o3 o4) st
             = Inr ([Node KCaseItem fl condsp (stmtsp' @ []) o3 o4], st1\<lparr> m_state := m_state st \<rparr>)"
      using act body False by (simp add: caseItemCover_def)
    with False dis show ?thesis
      by (intro exI[of _ "[]"] exI[of _ "st1\<lparr> m_state := m_state st \<rparr>"]) simp
  qed
qed

theorem case_arm_coverage_witness:
  "visitOutput (visit exOpt (Node KCaseItem exFl [] [exStmt] [] []) exState)
     = [Node KCaseItem exFl []
          [exStmt, Node (KCoverInc (lineDecl ''v_line'' exMod ''case'' ''7-8'' 0)) exFl [] [] [] []] [] []]
   \<and> visitOutput (visit exOpt (Node KCaseItem exFl [] [offPragma exFl [] [] [] [], exStmt] [] []) exState)
     = [Node KCaseItem exFl [] [exStmt] [] []]
   \<and> (\<exists>newp st'.
        visit exOpt (Node KCaseItem exFl [] [offPragma exFl [] [] [] [], exStmt] [] []) exState
          = Inr ([Node KCaseItem exFl [] ([exStmt] @ newp) [] []], st')
        \<and> m_state st' = m_state exState \<and> newp = [])
   \<and> visit exOpt (Node KCaseItem exFl [] [exStmt] [] []) (exState\<lparr> m_state := (m_state exState)\<lparr> m_on := False \<rparr> \<rparr>)
     = Inr ([Node KCaseItem exFl [] [exStmt] [] []], exState\<lparr> m_state := (m_state exState)\<lparr> m_on := False \<rparr> \<rparr>)
   \<and> visitOutput (visit exOpt exArmBegin exState)
     = [Node KCaseItem exFl [] [Node (KBegin ''b'') exFl [] [exStmt] [] []] [] []]
   \<and> (\<exists>st'. visit exOpt exArmBegin exState
          = Inr ([Node KCaseItem exFl [] [Node (KBegin ''b'') exFl [] [exStmt] [] []] [] []], st')
        \<and> m_state st' = m_state exState)"
proof -
  define st1 where "st1 = snd (projr (iterateAndNextNull exOpt [offPragma exFl [] [] [] [], exStmt]
                                  (createHandle exFl exState)))"
  have h1: "lineCoverageOn exOpt (m_state exState) exFl" by code_simp
  have h2: "m_modp exState = Some exMod" by code_simp
  have h3: "iterateAndNextNull exOpt [offPragma exFl [] [] [] [], exStmt] (createHandle exFl exState)
              = Inr ([exStmt], st1)"
    unfolding st1_def by (rule Inr_fst_snd; code_simp)
  have h4: "\<exists>n\<in>set [offPragma exFl [] [] [] [], exStmt]. kind n = KPragma COVERAGE_BLOCK_OFF"
    by (simp add: offPragma_def)
  have h5: "\<not> lineCoverageOn exOpt (m_state (exState\<lparr> m_state := (m_state exState)\<lparr> m_on := False \<rparr> \<rparr>)) exFl"
    by (simp add: lineCoverageOn_def)
  have o1: "visitOutput (visit exOpt (Node KCaseItem exFl [] [exStmt] [] []) exState)
     = [Node KCaseItem exFl []
          [exStmt, Node (KCoverInc (lineDecl ''v_line'' exMod ''case'' ''7-8'' 0)) exFl [] [] [] []] [] []]"
    by code_simp
  have o2: "visitOutput (visit exOpt (Node KCaseItem exFl [] [offPragma exFl [] [] [] [], exStmt] [] []) exState)
     = [Node KCaseItem exFl [] [exStmt] [] []]"
    by code_simp
  from case_arm_coverage[of exOpt exState exFl "[]" "[offPragma exFl [] [] [] [], exStmt]" "[]" "[]"
      exMod "[exStmt]" st1] h1 h2 h3 h4
  have a: "\<exists>newp st'.
        visit exOpt (Node KCaseItem exFl [] [offPragma exFl [] [] [] [], exStmt] [] []) exState
          = Inr ([Node KCaseItem exFl [] ([exStmt] @ newp) [] []], st')
        \<and> m_state st' = m_state exState \<and> newp = []"
    by blast
  from case_arm_coverage[of exOpt "exState\<lparr> m_state := (m_state exState)\<lparr> m_on := False \<rparr> \<rparr>" exFl
      "[]" "[exStmt]" "[]" "[]"] h5
  have b: "visit exOpt (Node KCaseItem exFl [] [exStmt] [] []) (exState\<lparr> m_state := (m_state exState)\<lparr> m_on := False \<rparr> \<rparr>)
     = Inr ([Node KCaseItem exFl [] [exStmt] [] []], exState\<lparr> m_state := (m_state exState)\<lparr> m_on := False \<rparr> \<rparr>)"
    by blast
  let ?body = "[Node (KBegin ''b'') exFl [] [offPragma exFl [] [] [] [], exStmt] [] []]"
  let ?body' = "[Node (KBegin ''b'') exFl [] [exStmt] [] []]"
  define st2 where "st2 = snd (projr (iterateAndNextNull exOpt ?body (createHandle exFl exState)))"
  have g3: "iterateAndNextNull exOpt ?body (createHandle exFl exState) = Inr (?body', st2)"
    unfolding st2_def by (rule Inr_fst_snd; code_simp)
  have g4: "list_ex disables ?body" by (simp add: offPragma_def)
  from case_arm_coverage[of exOpt exState exFl "[]" ?body "[]" "[]" exMod ?body' st2] h1 h2 g3
  obtain newp st' where v: "visit exOpt (Node KCaseItem exFl [] ?body [] []) exState
          = Inr ([Node KCaseItem exFl [] (?body' @ newp) [] []], st')"
    and s: "m_state st' = m_state exState"
    and i: "if lineCoverageOn exOpt (m_state st2) exFl
            then isIncrement newp exFl (lineDecl ''v_line'' exMod ''case''
                          (linesCov (lineTrack exOpt exFl st2) (m_state st2)) 0)
            else newp = []"
    and d: "lineCoverageOn exOpt (m_state st2) exFl \<longleftrightarrow> \<not> list_ex disables ?body"
    by blast
  from d g4 have "\<not> lineCoverageOn exOpt (m_state st2) exFl" by blast
  with i have "newp = []" by simp
  with v s have c: "\<exists>st'. visit exOpt exArmBegin exState
          = Inr ([Node KCaseItem exFl [] [Node (KBegin ''b'') exFl [] [exStmt] [] []] [] []], st')
        \<and> m_state st' = m_state exState"
    unfolding exArmBegin_def by auto
  have o3: "visitOutput (visit exOpt exArmBegin exState)
     = [Node KCaseItem exFl [] [Node (KBegin ''b'') exFl [] [exStmt] [] []] [] []]"
    by code_simp
  from o1 o2 a b o3 c show ?thesis by (intro conjI)
qed

theorem case_arm_nested_pragma_counterexample:
  "offIn exArmNested
   \<and> lineCoverageOn exOpt (m_state exState) exFl
   \<and> visitOutput (visit exOpt exArmNested exState)
     = [Node KCaseItem exFl []
          [Node (KIf False) exFl [] []
             [Node (KCoverInc (lineDecl ''v_line'' exMod ''else'' [] 1)) exFl [] [] [] []] [],
           Node (KCoverInc (lineDecl ''v_line'' exMod ''case'' ''7-8'' 0)) exFl [] [] [] []]
          [] []]"
  by code_simp






subsection \<open>Where a scope-off pragma can remain\<close>

lemma cleanList_simps [simp]:
  "cleanList []"
  "cleanList (n # ns) = (\<not> exposedOff n \<and> cleanList ns)"
  "cleanList (xs @ ys) = (cleanList xs \<and> cleanList ys)"
  by (auto simp: cleanList_def)

lemma cleanR_simps [simp]:
  "cleanR R st (Inl e) = True"
  "cleanR R st (Inr (x, st')) = (R x \<and> (cleanList (m_modStmts st) \<longrightarrow> cleanList (m_modStmts st')))"
  by (simp_all add: cleanR_def)



lemma not_exposed_gate:
  "gateKind (kind n) \<Longrightarrow> kind n \<noteq> KPragma COVERAGE_BLOCK_OFF \<Longrightarrow> \<not> exposedOff n"
  by (cases n) auto

lemma newCoverInc_clean:
  "newCoverInc opt fl hier pp cm lc off tn st = Inr (r, st') \<Longrightarrow>
     cleanList r \<and> (cleanList (m_modStmts st) \<longrightarrow> cleanList (m_modStmts st'))"
  by (auto simp: newCoverInc_def addModStmt_def Let_def split: option.splits if_splits)

lemma lineCoverInc_clean:
  "lineCoverInc opt fl pp ty cs off st = Inr (r, st') \<Longrightarrow>
     cleanList r \<and> (cleanList (m_modStmts st) \<longrightarrow> cleanList (m_modStmts st'))"
  by (auto simp: lineCoverInc_def traceNameForLine_def Let_def dest!: newCoverInc_clean)

lemma lineTrack_modStmts [simp]: "m_modStmts (lineTrack opt fl st) = m_modStmts st"
  by (simp add: lineTrack_def)

lemma createHandle_modStmts [simp]: "m_modStmts (createHandle fl st) = m_modStmts st"
  by (simp add: createHandle_def)

lemma cleanR_lineCoverInc: "cleanR cleanList st (lineCoverInc opt fl pp ty cs off st)"
proof (cases "lineCoverInc opt fl pp ty cs off st")
  case (Inl e)
  then show ?thesis by simp
next
  case (Inr p)
  then show ?thesis by (cases p) (auto dest: lineCoverInc_clean)
qed























end
